theory Spec2Isabelle
  imports Complex_Main "HOL-Library.Sublist" "HOL-Library.Multiset" "HOL-Library.Log_Nat"
begin

section \<open>Python primitives used by the services\<close>

text \<open>
  Python strings are lists of characters, and \<open>len\<close> is \<open>length\<close>. The floats of
  the scoring function are IEEE doubles with their rounding (below). The similarity
  values of the vector service and the confidences stored with entities and edges are
  kept as real numbers: what is proved about them (how results are ranked, which
  constant is stored) does not depend on how they are rounded.
\<close>

text \<open>\<open>d.get(k, default)\<close> on a dict literal, kept as an association list.\<close>

definition dict_get :: "('k \<times> 'v) list \<Rightarrow> 'k \<Rightarrow> 'v \<Rightarrow> 'v" where
  "dict_get d k dflt = (case map_of d k of None \<Rightarrow> dflt | Some v \<Rightarrow> v)"

subsection \<open>Floats of the scoring function\<close>

text \<open>
  A finite Python float is an IEEE-754 double, kept here as the rational number it
  stands for. \<open>to_double\<close> rounds a rational to the nearest double, a tie going to the
  even mantissa: 53 significant bits, and below \<open>2^-1022\<close> the fixed spacing
  \<open>2^-1074\<close> of the subnormal numbers. A float literal such as \<open>0.1\<close> is
  \<open>to_double (1/10)\<close>. There are no infinities here: every number the scoring
  function computes is bounded by the confidence it is given or by 1.
\<close>

definition floor_log2 :: "rat \<Rightarrow> int" where
  "floor_log2 x = (let (p, q) = quotient_of x; e = bitlen p - bitlen q
                   in if 2 powi e \<le> x then e else e - 1)"

definition round_half_even :: "rat \<Rightarrow> int" where
  "round_half_even y =
     (let f = \<lfloor>y\<rfloor>; d = y - of_int f
      in if d < 1 / 2 then f else if d > 1 / 2 then f + 1 else if even f then f else f + 1)"

definition to_double :: "rat \<Rightarrow> rat" where
  "to_double x =
     (if x = 0 then 0
      else (let e = max (floor_log2 \<bar>x\<bar>) (- 1022);
                ulp = 2 powi (e - 52)
            in sgn x * of_int (round_half_even (\<bar>x\<bar> / ulp)) * ulp))"

text \<open>\<open>a * b\<close> on floats: the exact product, rounded.\<close>

definition float_mul :: "rat \<Rightarrow> rat \<Rightarrow> rat" where
  "float_mul a b = to_double (a * b)"

text \<open>
  \<open>round(x, nd)\<close> on a float: the exact value of \<open>x\<close> is rounded to \<open>nd\<close> decimals, a
  tie going to the even digit, and the float nearest to that decimal number is returned.
\<close>

definition py_round :: "rat \<Rightarrow> nat \<Rightarrow> rat" where
  "py_round x nd = to_double (of_int (round_half_even (x * 10 ^ nd)) / 10 ^ nd)"

text \<open>\<open>sep.join(parts)\<close>.\<close>

fun join :: "string \<Rightarrow> string list \<Rightarrow> string" where
  "join sep [] = []"
| "join sep [x] = x"
| "join sep (x # y # ys) = x @ sep @ join sep (y # ys)"

text \<open>\<open>xs[:k]\<close> for an integer \<open>k\<close>: a negative bound counts from the end.\<close>

definition slice_to :: "int \<Rightarrow> 'a list \<Rightarrow> 'a list" where
  "slice_to k xs = (if 0 \<le> k then take (nat k) xs else take (length xs - nat (- k)) xs)"

text \<open>\<open>str.lower()\<close>, on the ASCII letters.\<close>

definition lower_char :: "char \<Rightarrow> char" where
  "lower_char c =
     (case map_of (zip ''ABCDEFGHIJKLMNOPQRSTUVWXYZ'' ''abcdefghijklmnopqrstuvwxyz'') c of
        None \<Rightarrow> c | Some l \<Rightarrow> l)"

definition lower :: "string \<Rightarrow> string" where
  "lower s = map lower_char s"

text \<open>\<open>str.strip()\<close>: white space is removed at both ends.\<close>

definition is_space :: "char \<Rightarrow> bool" where
  "is_space c = (c \<in> set [CHR 0x09, CHR 0x0A, CHR 0x0B, CHR 0x0C, CHR 0x0D,
                            CHR 0x1C, CHR 0x1D, CHR 0x1E, CHR 0x1F, CHR 0x20])"

definition strip :: "string \<Rightarrow> string" where
  "strip s = rev (dropWhile is_space (rev (dropWhile is_space s)))"

text \<open>\<open>str(n)\<close> for a natural number: its decimal digits.\<close>

function str_nat :: "nat \<Rightarrow> string" where
  "str_nat n = (if n < 10 then [''0123456789'' ! n]
                else str_nat (n div 10) @ [''0123456789'' ! (n mod 10)])"
  by pat_completeness auto
termination
  by (relation "measure id") auto

text \<open>
  \<open>sub in s\<close> on strings is \<^const>\<open>sublist\<close>: \<open>sub\<close> occurs as a contiguous
  block of \<open>s\<close>.
\<close>

datatype py_error = ValueError

section \<open>vector\_service.py\<close>

text \<open>
  A stored segment. The key \<open>vector\<close> may be absent (\<open>"vector" in segment\<close>);
  the keys the services never read are left out.
\<close>

record segment =
  seg_id :: string
  seg_content :: string
  seg_index :: nat
  seg_vector :: "real list option"

text \<open>A result of the search: a copy of the segment with the key \<open>similarity_score\<close> added.\<close>

record scored_segment =
  ss_segment :: segment
  similarity_score :: real

text \<open>One entry of \<open>vectors.json\<close>; the key \<open>segments\<close> may be absent.\<close>

record index_entry =
  ie_document_id :: string
  ie_segments :: "segment list option"

type_synonym vectors_data = "(string \<times> index_entry) list"

text \<open>
  \<open>sklearn.metrics.pairwise.cosine_similarity\<close> on two one-row matrices, as the
  library documents it: rows of different width are rejected with a \<open>ValueError\<close>;
  each row is divided by its Euclidean norm, a zero norm being replaced by one; the
  result is the dot product of the two normalised rows. The arithmetic here is that of
  the real numbers, without the rounding of doubles: it serves to rank results, and
  nothing is claimed about the values themselves.
\<close>

definition l2_norm :: "real list \<Rightarrow> real" where
  "l2_norm v = sqrt (sum_list (map (\<lambda>x. x * x) v))"

definition norm_divisor :: "real list \<Rightarrow> real" where
  "norm_divisor v = (let n = l2_norm v in if n = 0 then 1 else n)"

definition normalize_row :: "real list \<Rightarrow> real list" where
  "normalize_row v = map (\<lambda>x. x / norm_divisor v) v"

definition dot :: "real list \<Rightarrow> real list \<Rightarrow> real" where
  "dot u v = sum_list (map2 (*) u v)"

definition cosine_similarity :: "real list \<Rightarrow> real list \<Rightarrow> py_error + real" where
  "cosine_similarity x y =
     (if length x \<noteq> length y then Inl ValueError
      else Inr (dot (normalize_row x) (normalize_row y)))"

definition calculate_similarity :: "real list \<Rightarrow> real list \<Rightarrow> py_error + real" where
  "calculate_similarity vector1 vector2 =
     (if vector1 = [] \<or> vector2 = [] then Inr 0.0
      else cosine_similarity vector1 vector2)"

text \<open>The loop that fills \<open>similarities\<close>; the first similarity that raises ends it.\<close>

fun collect_similarities :: "real list \<Rightarrow> segment list \<Rightarrow> py_error + (real \<times> segment) list" where
  "collect_similarities query_embedding [] = Inr []"
| "collect_similarities query_embedding (segment # rest) =
     (case seg_vector segment of
        None \<Rightarrow> collect_similarities query_embedding rest
      | Some v \<Rightarrow>
          (case calculate_similarity query_embedding v of
             Inl e \<Rightarrow> Inl e
           | Inr similarity \<Rightarrow>
               (case collect_similarities query_embedding rest of
                  Inl e \<Rightarrow> Inl e
                | Inr sims \<Rightarrow> Inr ((similarity, segment) # sims))))"

definition all_stored_segments :: "vectors_data \<Rightarrow> segment list" where
  "all_stored_segments vectors_data =
     concat (map (\<lambda>(doc_id, doc_vectors).
                    case ie_segments doc_vectors of None \<Rightarrow> [] | Some segs \<Rightarrow> segs) vectors_data)"

text \<open>
  \<open>similarities.sort(key=lambda x: x[0], reverse=True)\<close>: Python's sort is stable, also
  when reversed; it is the stable sort on the negated key.
\<close>

definition sort_by_similarity :: "(real \<times> segment) list \<Rightarrow> (real \<times> segment) list" where
  "sort_by_similarity similarities = sort_key (\<lambda>x. - fst x) similarities"

text \<open>
  \<open>find_similar_segments\<close>. The embedding of the query comes from the embedding
  service and is a parameter here.
\<close>

definition find_similar_segments ::
  "real list \<Rightarrow> vectors_data \<Rightarrow> int \<Rightarrow> py_error + scored_segment list" where
  "find_similar_segments query_embedding vectors_data top_k =
     (let all_segments = all_stored_segments vectors_data
      in if all_segments = [] then Inr []
         else (case collect_similarities query_embedding all_segments of
                 Inl e \<Rightarrow> Inl e
               | Inr similarities \<Rightarrow>
                   Inr (map (\<lambda>(similarity, segment).
                               \<lparr>ss_segment = segment, similarity_score = similarity\<rparr>)
                          (slice_to top_k (sort_by_similarity similarities)))))"

record filters =
  flt_min_similarity :: "real option"
  flt_keywords :: "string list option"

definition include_segment :: "filters \<Rightarrow> scored_segment \<Rightarrow> bool" where
  "include_segment fs segment =
     (let include1 = (case flt_min_similarity fs of
                        None \<Rightarrow> True
                      | Some m \<Rightarrow> \<not> (similarity_score segment < m));
          include2 = (case flt_keywords fs of
                        None \<Rightarrow> include1
                      | Some kws \<Rightarrow>
                          if \<not> list_ex (\<lambda>keyword. sublist keyword (seg_content (ss_segment segment))) kws
                          then False else include1)
      in include2)"

definition search_regulations ::
  "real list \<Rightarrow> vectors_data \<Rightarrow> filters option \<Rightarrow> int \<Rightarrow> py_error + scored_segment list" where
  "search_regulations query_embedding vectors_data fltrs top_k =
     (case find_similar_segments query_embedding vectors_data (top_k * 2) of
        Inl e \<Rightarrow> Inl e
      | Inr similar_segments \<Rightarrow>
          (case fltrs of
             None \<Rightarrow> Inr (slice_to top_k similar_segments)
           | Some fs \<Rightarrow> Inr (slice_to top_k (filter (include_segment fs) similar_segments))))"


text \<open>
  For stating what the search returns: the similarity of two vectors of one dimension
  as a number, the similarities of all stored vectors in insertion order (document by
  document, segment by segment), and the result record of a scored pair.
\<close>

definition similarity_value :: "real list \<Rightarrow> real list \<Rightarrow> real" where
  "similarity_value vector1 vector2 =
     (if vector1 = [] \<or> vector2 = [] then 0
      else dot (normalize_row vector1) (normalize_row vector2))"

definition stored_similarities :: "real list \<Rightarrow> vectors_data \<Rightarrow> (real \<times> segment) list" where
  "stored_similarities query_embedding vectors_data =
     concat (map (\<lambda>segment. case seg_vector segment of
                                None \<Rightarrow> []
                              | Some v \<Rightarrow> [(similarity_value query_embedding v, segment)])
               (all_stored_segments vectors_data))"

definition search_result :: "real \<times> segment \<Rightarrow> scored_segment" where
  "search_result p = \<lparr>ss_segment = snd p, similarity_score = fst p\<rparr>"

section \<open>knowledge\_graph.py\<close>

record entity =
  ent_id :: string
  ent_text :: string
  ent_type :: string
  ent_document_id :: string
  ent_segment_id :: string
  ent_confidence :: real
  ent_source :: string

record node_properties =
  np_document_id :: string
  np_confidence :: real
  np_source :: string

record node =
  node_id :: string
  node_label :: string
  node_type :: string
  node_properties :: node_properties

record edge =
  edge_id :: string
  edge_source :: string
  edge_target :: string
  edge_relation :: string
  edge_confidence :: real
  edge_evidence :: string

record metadata =
  md_total_nodes :: nat
  md_total_edges :: nat
  md_document_count :: nat
  md_created_at :: string

record graph_data =
  g_nodes :: "node list"
  g_edges :: "edge list"
  g_metadata :: metadata

text \<open>A dict from category to extracted strings, and from category to entities, in key order.\<close>

type_synonym extraction = "(string \<times> string list) list"
type_synonym entity_dict = "(string \<times> entity list) list"

text \<open>
  The regular expressions of \<open>_local_entity_extraction\<close>, by name. What
  \<open>re.findall(pattern, text, re.IGNORECASE)\<close> returns is the regular expression
  engine's business and comes in through \<open>sv_findall\<close>; no pattern has a capturing
  group, so every result is a list of whole matches.
  \<^item> \<open>ArticleNumber\<close>: Article, Section, Clause, Part, Chapter or Regulation, then a number
    with an optional letter;
  \<^item> \<open>NamedLaw\<close>: a capitalised word, then Law, Act, Code, Regulation or Rule;
  \<^item> \<open>TitleNumeral\<close>: Title or Subtitle, then a Roman numeral;
  \<^item> \<open>AbcLaw\<close>: the words ABC Law;
  \<^item> \<open>KeywordWindow kw\<close>: up to 20 word or space characters, the escaped keyword, up to
    20 word or space characters;
  \<^item> \<open>MoneyAmount\<close>: a dollar amount, optionally with million, thousand or billion;
  \<^item> \<open>PrisonTerm\<close>: a number of years, months or days in prison, jail or imprisonment;
  \<^item> \<open>FineClause\<close>: fine, penalty, sanction or punishment, optionally of or up to, then
    word and space characters;
  \<^item> \<open>LicenceSuspension\<close>: suspension, revocation or termination of a license, permit
    or authorization;
  \<^item> \<open>TradeParty\<close>: supplier, wholesaler, retailer, distributor, manufacturer, company,
    corporation, business or entity;
  \<^item> \<open>LicenceParty\<close>: licensee, permit holder, operator, owner or manager.
\<close>

datatype pattern =
    ArticleNumber | NamedLaw | TitleNumeral | AbcLaw
  | KeywordWindow string
  | MoneyAmount | PrisonTerm | FineClause | LicenceSuspension
  | TradeParty | LicenceParty

text \<open>
  What the builder gets from outside: \<open>uuid.uuid4()\<close> (the \<open>n\<close>-th identifier
  drawn), the segment store, the document list, the generation service's entity
  extraction for a text, the regular expression engine, and the clock.
\<close>

record services =
  sv_uuid4 :: "nat \<Rightarrow> string"
  sv_load_segments :: "string \<Rightarrow> segment list"
  sv_list_documents :: "string list"
  sv_extract_legal_entities :: "string \<Rightarrow> extraction"
  sv_findall :: "pattern \<Rightarrow> string \<Rightarrow> string list"
  sv_now :: string

definition entity_types :: "(string \<times> string) list" where
  "entity_types =
     [(''legal_articles'', ''LEGAL_ARTICLE''),
      (''violations'', ''VIOLATION''),
      (''penalties'', ''PENALTY''),
      (''responsible_parties'', ''RESPONSIBLE_PARTY''),
      (''related_concepts'', ''CONCEPT'')]"

subsection \<open>Rule-based extraction\<close>

definition article_patterns :: "pattern list" where
  "article_patterns = [ArticleNumber, NamedLaw, TitleNumeral, AbcLaw]"

definition violation_keywords :: "string list" where
  "violation_keywords =
     [''violation'', ''breach'', ''infringement'', ''non-compliance'', ''illegal'',
      ''prohibited'', ''unlawful'', ''monopoly'', ''discrimination'', ''fraud'',
      ''price fixing'', ''market manipulation'', ''unfair competition'']"

definition penalty_patterns :: "pattern list" where
  "penalty_patterns = [MoneyAmount, PrisonTerm, FineClause, LicenceSuspension]"

definition party_patterns :: "pattern list" where
  "party_patterns = [TradeParty, LicenceParty]"

definition concept_keywords :: "string list" where
  "concept_keywords =
     [''compliance'', ''regulation'', ''pricing'', ''market'', ''competition'',
      ''trade'', ''commerce'', ''consumer protection'', ''antitrust'',
      ''three-tier system'', ''posted price'', ''inducement'']"

text \<open>The party loop: a match is kept unless its lower-case form was seen for this pattern.\<close>

fun first_seen :: "string list \<Rightarrow> string set \<Rightarrow> string list" where
  "first_seen [] seen = []"
| "first_seen (match # matches) seen =
     (if lower match \<notin> seen then match # first_seen matches (insert (lower match) seen)
      else first_seen matches seen)"

text \<open>The final loop: empty items go, and so does an item whose lower-case form was seen.\<close>

fun unique_items :: "string list \<Rightarrow> string set \<Rightarrow> string list" where
  "unique_items [] seen = []"
| "unique_items (item # items) seen =
     (let item_lower = (if item \<noteq> [] then lower item else [])
      in if item \<noteq> [] \<and> item_lower \<notin> seen
         then item # unique_items items (insert item_lower seen)
         else unique_items items seen)"

definition local_entity_extraction :: "(pattern \<Rightarrow> string \<Rightarrow> string list) \<Rightarrow> string \<Rightarrow> extraction" where
  "local_entity_extraction findall text =
     (let legal_articles = concat (map (\<lambda>pattern. findall pattern text) article_patterns);
          violations =
            concat (map (\<lambda>keyword.
                           if sublist (lower keyword) (lower text)
                           then map strip (take 2 (findall (KeywordWindow keyword) text))
                           else [])
                      violation_keywords);
          penalties = concat (map (\<lambda>pattern. findall pattern text) penalty_patterns);
          responsible_parties =
            concat (map (\<lambda>pattern. first_seen (findall pattern text) {}) party_patterns);
          related_concepts =
            concat (map (\<lambda>keyword. if sublist (lower keyword) (lower text) then [keyword] else [])
                      concept_keywords)
      in map (\<lambda>(entity_type, items). (entity_type, take 5 (unique_items items {})))
           [(''legal_articles'', legal_articles),
            (''violations'', violations),
            (''penalties'', penalties),
            (''responsible_parties'', responsible_parties),
            (''related_concepts'', related_concepts)])"

subsection \<open>Entities of a document\<close>

text \<open>\<open>any(entities.values())\<close>: some category has a non-empty list.\<close>

definition any_values :: "extraction \<Rightarrow> bool" where
  "any_values entities = list_ex (\<lambda>(entity_type, entity_list). entity_list \<noteq> []) entities"

text \<open>\<open>d[k].append(x)\<close> on a dict of lists.\<close>

definition dict_append :: "('k \<times> 'v list) list \<Rightarrow> 'k \<Rightarrow> 'v \<Rightarrow> ('k \<times> 'v list) list" where
  "dict_append d k x = map (\<lambda>(k', l). if k' = k then (k', l @ [x]) else (k', l)) d"

text \<open>
  The three nested loops of \<open>extract_entities_from_document\<close>, innermost first. The
  state is \<open>all_entities\<close> and the number of identifiers drawn so far. The confidence
  is computed from \<open>entities\<close>, the variable the loop iterates over: after a fallback
  that is the rule-based result.
\<close>

fun add_entities ::
  "services \<Rightarrow> string \<Rightarrow> segment \<Rightarrow> extraction \<Rightarrow> string \<Rightarrow> string list
     \<Rightarrow> entity_dict \<times> nat \<Rightarrow> entity_dict \<times> nat" where
  "add_entities sv doc_id segment entities entity_type [] st = st"
| "add_entities sv doc_id segment entities entity_type (entity_text # rest) (all_entities, n) =
     add_entities sv doc_id segment entities entity_type rest
       (dict_append all_entities entity_type
          \<lparr>ent_id = sv_uuid4 sv n,
           ent_text = entity_text,
           ent_type = dict_get entity_types entity_type ''UNKNOWN'',
           ent_document_id = doc_id,
           ent_segment_id = seg_id segment,
           ent_confidence = (if any_values entities then 0.8 else 0.6),
           ent_source = take 200 (seg_content segment) @ ''...''\<rparr>,
        Suc n)"

fun add_extraction ::
  "services \<Rightarrow> string \<Rightarrow> segment \<Rightarrow> extraction \<Rightarrow> extraction
     \<Rightarrow> entity_dict \<times> nat \<Rightarrow> entity_dict \<times> nat" where
  "add_extraction sv doc_id segment entities [] st = st"
| "add_extraction sv doc_id segment entities ((entity_type, entity_list) # items) st =
     add_extraction sv doc_id segment entities items
       (if entity_type \<in> set (map fst (fst st))
        then add_entities sv doc_id segment entities entity_type entity_list st
        else st)"

fun extract_segments ::
  "services \<Rightarrow> string \<Rightarrow> segment list \<Rightarrow> entity_dict \<times> nat \<Rightarrow> entity_dict \<times> nat" where
  "extract_segments sv doc_id [] st = st"
| "extract_segments sv doc_id (segment # segments) st =
     (let ai_entities = sv_extract_legal_entities sv (seg_content segment);
          entities = (if \<not> any_values ai_entities
                      then local_entity_extraction (sv_findall sv) (seg_content segment)
                      else ai_entities)
      in extract_segments sv doc_id segments
           (add_extraction sv doc_id segment entities entities st))"

definition extract_entities_from_document :: "services \<Rightarrow> string \<Rightarrow> nat \<Rightarrow> entity_dict \<times> nat" where
  "extract_entities_from_document sv doc_id n =
     (let segments = sv_load_segments sv doc_id
      in if segments = [] then ([], n)
         else extract_segments sv doc_id segments
                (map (\<lambda>(entity_type, name). (entity_type, [])) entity_types, n))"

text \<open>For stating what the extraction does: every entity of the mapping has confidence 0.8.\<close>

definition all_confident :: "entity_dict \<Rightarrow> bool" where
  "all_confident d =
     (\<forall>(entity_type, entity_list)\<in>set d. \<forall>e\<in>set entity_list. ent_confidence e = 0.8)"

subsection \<open>Relationships\<close>

definition relation_map :: "((string \<times> string) \<times> string) list" where
  "relation_map =
     [((''legal_articles'', ''violations''), ''regulates''),
      ((''violations'', ''penalties''), ''leads_to''),
      ((''legal_articles'', ''penalties''), ''specifies_penalty''),
      ((''responsible_parties'', ''violations''), ''commits''),
      ((''related_concepts'', ''legal_articles''), ''involves''),
      ((''related_concepts'', ''violations''), ''defines'')]"

definition determine_relation_type :: "string \<Rightarrow> string \<Rightarrow> string" where
  "determine_relation_type type1 type2 = dict_get relation_map (type1, type2) ''''"

text \<open>
  The five nested loops of \<open>find_relationships\<close>, as the list of the pairs for which an
  edge is appended, in the order of the appends.
\<close>

definition related_pairs :: "entity_dict \<Rightarrow> (entity \<times> entity \<times> string) list" where
  "related_pairs entities =
     [(entity1, entity2, determine_relation_type entity_type1 entity_type2).
        (entity_type1, entity_list1) \<leftarrow> entities,
        entity1 \<leftarrow> entity_list1,
        (entity_type2, entity_list2) \<leftarrow> entities,
        entity_type1 \<noteq> entity_type2,
        entity2 \<leftarrow> entity_list2,
        ent_segment_id entity1 = ent_segment_id entity2,
        determine_relation_type entity_type1 entity_type2 \<noteq> '''']"

definition find_relationships :: "services \<Rightarrow> entity_dict \<Rightarrow> nat \<Rightarrow> edge list \<times> nat" where
  "find_relationships sv entities n =
     (map (\<lambda>(i, (entity1, entity2, relation_type)).
             \<lparr>edge_id = sv_uuid4 sv (n + i),
              edge_source = ent_id entity1,
              edge_target = ent_id entity2,
              edge_relation = relation_type,
              edge_confidence = 0.7,
              edge_evidence = ent_source entity1\<rparr>)
        (enumerate 0 (related_pairs entities)),
      n + length (related_pairs entities))"

subsection \<open>Merging similar nodes\<close>

text \<open>
  \<open>_is_similar_text\<close>. The quotient of the two counts is kept exact. The float
  quotient is at least the float \<open>0.8\<close> exactly when the exact quotient is at least
  \<open>4/5\<close>, as long as the longer label has fewer than \<open>2^54\<close> characters.
\<close>

definition is_similar_text :: "string \<Rightarrow> string \<Rightarrow> real \<Rightarrow> bool" where
  "is_similar_text text1 text2 threshold =
     (if text1 = text2 then True
      else if length text1 < 3 \<or> length text2 < 3 then False
      else (let common_chars = length (filter (\<lambda>(a, b). a = b) (zip text1 text2));
                max_len = max (length text1) (length text2)
            in real common_chars / real max_len \<ge> threshold))"

text \<open>
  The inner loop over \<open>nodes[i+1:]\<close>: the nodes that join the group of \<open>node1\<close>, and
  \<open>processed\<close> afterwards.
\<close>

fun scan_group :: "node \<Rightarrow> node list \<Rightarrow> string set \<Rightarrow> node list \<times> string set" where
  "scan_group node1 [] processed = ([], processed)"
| "scan_group node1 (node2 # rest) processed =
     (if node_id node2 \<in> processed then scan_group node1 rest processed
      else if node_type node1 = node_type node2
              \<and> is_similar_text (node_label node1) (node_label node2) 0.8
      then (let (members, processed') = scan_group node1 rest (insert (node_id node2) processed)
            in (node2 # members, processed'))
      else scan_group node1 rest processed)"

text \<open>The outer loop: \<open>similar_groups\<close>, in the order the groups are appended.\<close>

fun find_similar_groups :: "node list \<Rightarrow> string set \<Rightarrow> node list list" where
  "find_similar_groups [] processed = []"
| "find_similar_groups (node1 # rest) processed =
     (if node_id node1 \<in> processed then find_similar_groups rest processed
      else (let (members, processed') = scan_group node1 rest processed;
                group = node1 # members
            in (if length group > 1 then [group] else [])
               @ find_similar_groups rest (insert (node_id node1) processed')))"

definition rewrite_edge :: "string \<Rightarrow> string list \<Rightarrow> edge \<Rightarrow> edge" where
  "rewrite_edge main_id merge_ids e =
     (let e1 = (if edge_source e \<in> set merge_ids then e\<lparr>edge_source := main_id\<rparr> else e);
          e2 = (if edge_target e1 \<in> set merge_ids then e1\<lparr>edge_target := main_id\<rparr> else e1)
      in e2)"

text \<open>
  One round of the second loop. \<open>nodes.remove(x)\<close> under \<open>if x in nodes\<close> removes the
  first element equal to \<open>x\<close>, if there is one. Every group has at least two nodes.
\<close>

fun merge_group :: "node list \<Rightarrow> node list \<times> edge list \<Rightarrow> node list \<times> edge list" where
  "merge_group [] (nodes, edges) = (nodes, edges)"
| "merge_group (main_node # others) (nodes, edges) =
     (foldl (\<lambda>ns node_to_remove. remove1 node_to_remove ns) nodes others,
      map (rewrite_edge (node_id main_node) (map node_id others)) edges)"

definition merge_similar_entities :: "node list \<Rightarrow> edge list \<Rightarrow> node list \<times> edge list" where
  "merge_similar_entities nodes edges =
     foldl (\<lambda>st group. merge_group group st) (nodes, edges) (find_similar_groups nodes {})"

text \<open>
  For stating what the merge does. \<open>matching_positions\<close> counts the positions at which
  both labels have a character and the characters agree; \<open>mergeable\<close> is the test of
  the inner loop; \<open>merged_away\<close> collects the nodes the groups remove (everything but
  the first node of each group); \<open>rewrite_all\<close> is what the rounds of the second loop
  do to one edge.
\<close>

definition matching_positions :: "string \<Rightarrow> string \<Rightarrow> nat" where
  "matching_positions text1 text2 =
     card {i. i < length text1 \<and> i < length text2 \<and> text1 ! i = text2 ! i}"

definition mergeable :: "node \<Rightarrow> node \<Rightarrow> bool" where
  "mergeable node1 node2 =
     (node_type node1 = node_type node2
      \<and> is_similar_text (node_label node1) (node_label node2) 0.8)"

definition merged_away :: "node list list \<Rightarrow> node set" where
  "merged_away groups = set (concat (map tl groups))"

definition rewrite_all :: "node list list \<Rightarrow> edge \<Rightarrow> edge" where
  "rewrite_all groups e =
     foldl (\<lambda>e' group. rewrite_edge (node_id (hd group)) (map node_id (tl group)) e') e groups"

text \<open>
  The merge as the specification words it. \<open>clusters\<close> partitions the nodes first match
  wins: the first node not yet in a class opens one and takes with it every later node,
  not yet in a class, that it is mergeable with; the nodes it does not take are
  partitioned in the same way. \<open>representative_id\<close> sends the id of a node taken into
  a class to the id of the node that opened it, and leaves every other id alone;
  \<open>redirect\<close> does that to both ends of an edge.
\<close>

function clusters :: "node list \<Rightarrow> (node \<times> node list) list" where
  "clusters [] = []"
| "clusters (n # rest) =
     (n, filter (mergeable n) rest) # clusters (filter (\<lambda>y. \<not> mergeable n y) rest)"
  by pat_completeness auto
termination
  by (relation "measure length") (auto simp: less_Suc_eq_le)

definition representative_id :: "(node \<times> node list) list \<Rightarrow> string \<Rightarrow> string" where
  "representative_id cl i =
     (case find (\<lambda>(head, members). i \<in> set (map node_id members)) cl of
        None \<Rightarrow> i
      | Some (head, members) \<Rightarrow> node_id head)"

definition redirect :: "(node \<times> node list) list \<Rightarrow> edge \<Rightarrow> edge" where
  "redirect cl e =
     e\<lparr>edge_source := representative_id cl (edge_source e),
       edge_target := representative_id cl (edge_target e)\<rparr>"

text \<open>The classes with at least two nodes, as lists: what the grouping loops build.\<close>

definition groups_of :: "(node \<times> node list) list \<Rightarrow> node list list" where
  "groups_of cl =
     map (\<lambda>(head, members). head # members) (filter (\<lambda>(head, members). members \<noteq> []) cl)"

subsection \<open>Building the graph\<close>

definition entity_node :: "entity \<Rightarrow> node" where
  "entity_node entity =
     \<lparr>node_id = ent_id entity,
      node_label = ent_text entity,
      node_type = ent_type entity,
      node_properties =
        \<lparr>np_document_id = ent_document_id entity,
         np_confidence = ent_confidence entity,
         np_source = ent_source entity\<rparr>\<rparr>"

fun build_documents ::
  "services \<Rightarrow> string list \<Rightarrow> node list \<times> edge list \<times> nat \<Rightarrow> node list \<times> edge list \<times> nat" where
  "build_documents sv [] st = st"
| "build_documents sv (doc_id # doc_ids) (all_nodes, all_edges, n) =
     (let (entities, n1) = extract_entities_from_document sv doc_id n;
          nodes = [entity_node entity. (entity_type, entity_list) \<leftarrow> entities, entity \<leftarrow> entity_list];
          (relationships, n2) = find_relationships sv entities n1
      in build_documents sv doc_ids (all_nodes @ nodes, all_edges @ relationships, n2))"

definition build_knowledge_graph :: "services \<Rightarrow> string list option \<Rightarrow> nat \<Rightarrow> graph_data" where
  "build_knowledge_graph sv doc_ids_arg n =
     (let doc_ids = (case doc_ids_arg of None \<Rightarrow> sv_list_documents sv | Some ds \<Rightarrow> ds);
          (all_nodes, all_edges, n') = build_documents sv doc_ids ([], [], n);
          (nodes, edges) = merge_similar_entities all_nodes all_edges
      in \<lparr>g_nodes = nodes,
          g_edges = edges,
          g_metadata =
            \<lparr>md_total_nodes = length nodes,
             md_total_edges = length edges,
             md_document_count = length doc_ids,
             md_created_at = sv_now sv\<rparr>\<rparr>)"

subsection \<open>Querying the graph\<close>

record query_info =
  qi_entity_name :: string
  qi_relation_type :: "string option"
  qi_found_matches :: nat

record query_result =
  qr_nodes :: "node list"
  qr_edges :: "edge list"
  qr_message :: "string option"
  qr_query_info :: "query_info option"

text \<open>The loop over the edges; the state is \<open>related_edges\<close> and \<open>related_node_ids\<close>.\<close>

fun collect_related_edges ::
  "string option \<Rightarrow> edge list \<Rightarrow> edge list \<times> string set \<Rightarrow> edge list \<times> string set" where
  "collect_related_edges relation_type [] st = st"
| "collect_related_edges relation_type (e # es) (related_edges, related_node_ids) =
     (if (edge_source e \<in> related_node_ids \<or> edge_target e \<in> related_node_ids)
         \<and> (relation_type = None \<or> Some (edge_relation e) = relation_type)
      then collect_related_edges relation_type es
             (related_edges @ [e],
              insert (edge_target e) (insert (edge_source e) related_node_ids))
      else collect_related_edges relation_type es (related_edges, related_node_ids))"

text \<open>
  \<open>query_knowledge_graph\<close>. The stored graph is \<open>None\<close> when the loaded dict is empty
  or has no key \<open>nodes\<close>.
\<close>

definition query_knowledge_graph :: "graph_data option \<Rightarrow> string \<Rightarrow> string option \<Rightarrow> query_result" where
  "query_knowledge_graph stored entity_name relation_type =
     (case stored of
        None \<Rightarrow>
          \<lparr>qr_nodes = [], qr_edges = [], qr_message = Some ''Knowledge graph is empty'',
           qr_query_info = None\<rparr>
      | Some graph \<Rightarrow>
          (let matching_nodes =
                 filter (\<lambda>node. sublist (lower entity_name) (lower (node_label node))) (g_nodes graph);
               (related_edges, related_node_ids) =
                 collect_related_edges relation_type (g_edges graph)
                   ([], set (map node_id matching_nodes));
               result_nodes = filter (\<lambda>node. node_id node \<in> related_node_ids) (g_nodes graph)
           in \<lparr>qr_nodes = result_nodes,
               qr_edges = related_edges,
               qr_message = None,
               qr_query_info =
                 Some \<lparr>qi_entity_name = entity_name,
                       qi_relation_type = relation_type,
                       qi_found_matches = length matching_nodes\<rparr>\<rparr>))"

section \<open>rag\_service.py\<close>

text \<open>
  The context handed to answer generation holds retrieved segments and, in front, at
  most one synthetic item built from the knowledge graph.
\<close>

datatype context_doc = Retrieved scored_segment | KgContext string

fun doc_content :: "context_doc \<Rightarrow> string" where
  "doc_content (Retrieved s) = seg_content (ss_segment s)"
| "doc_content (KgContext c) = c"

definition doc_text :: "nat \<Rightarrow> context_doc \<Rightarrow> string" where
  "doc_text i doc = ''[Document '' @ str_nat i @ ''] '' @ doc_content doc"

text \<open>The loop of \<open>_build_context_text\<close>: \<open>i\<close> counts from 1, \<open>break\<close> ends the recursion.\<close>

fun build_context_parts :: "int \<Rightarrow> nat \<Rightarrow> nat \<Rightarrow> context_doc list \<Rightarrow> string list \<Rightarrow> string list" where
  "build_context_parts max_length current_length i [] context_parts = context_parts"
| "build_context_parts max_length current_length i (doc # docs) context_parts =
     (if int current_length + int (length (doc_text i doc)) > max_length then
        (let remaining_length = max_length - int current_length
         in if remaining_length > 100
            then context_parts @ [take (nat remaining_length) (doc_text i doc) @ ''...'']
            else context_parts)
      else build_context_parts max_length (current_length + length (doc_text i doc)) (Suc i) docs
             (context_parts @ [doc_text i doc]))"

definition build_context_text :: "context_doc list \<Rightarrow> int \<Rightarrow> string" where
  "build_context_text context_docs max_length =
     join [CHR 0x0A, CHR 0x0A] (build_context_parts max_length 0 1 context_docs [])"

text \<open>
  For stating what the loop does: the rendered items \<open>"[Document j] <content>"\<close>,
  numbered from \<open>i\<close>, and the summed length of a list of parts (the separators that
  \<open>join\<close> adds later are not counted by the loop).
\<close>

definition doc_texts :: "nat \<Rightarrow> context_doc list \<Rightarrow> string list" where
  "doc_texts i docs = map (\<lambda>(j, d). doc_text j d) (zip [i ..< i + length docs] docs)"

definition total_length :: "string list \<Rightarrow> nat" where
  "total_length parts = sum_list (map length parts)"

section \<open>compliance\_analyzer.py\<close>

text \<open>
  The dict returned by \<open>ai_client.analyze_compliance\<close>; a key the model's JSON
  left out is \<open>None\<close>.
\<close>

record analysis_result =
  ar_compliance_status :: "string option"
  ar_risk_level :: "string option"
  ar_confidence :: "rat option"

text \<open>The dict returned by \<open>_assess_compliance_risk\<close>; the two branches fill different keys.\<close>

record risk_assessment =
  ra_compliance_status :: string
  ra_risk_level :: string
  ra_risk_score :: rat
  ra_reason :: "string option"
  ra_confidence :: "rat option"
  ra_analysis_result :: "analysis_result option"

definition base_scores :: "(string \<times> rat) list" where
  "base_scores =
     [(''Compliant'', to_double 0.1), (''Violation'', to_double 0.9),
      (''Risk'', to_double 0.6), (''Unknown'', to_double 0.5)]"

definition risk_multipliers :: "(string \<times> rat) list" where
  "risk_multipliers = [(''Low'', to_double 0.3), (''Medium'', to_double 0.6), (''High'', to_double 1.0)]"

definition calculate_risk_score :: "string \<Rightarrow> string \<Rightarrow> rat \<Rightarrow> rat" where
  "calculate_risk_score compliance_status risk_level confidence =
     (let base_score = dict_get base_scores compliance_status (to_double 0.5);
          risk_multiplier = dict_get risk_multipliers risk_level (to_double 0.6);
          risk_score = float_mul (float_mul base_score risk_multiplier) confidence
      in py_round (min (max risk_score (to_double 0.0)) (to_double 1.0)) 2)"

definition assess_compliance_risk ::
  "(string \<Rightarrow> string \<Rightarrow> analysis_result) \<Rightarrow> string \<Rightarrow> scored_segment list \<Rightarrow> risk_assessment" where
  "assess_compliance_risk analyze_compliance business_description regulations =
     (if regulations = [] then
        \<lparr>ra_compliance_status = ''Unable to Determine'',
         ra_risk_level = ''Medium'',
         ra_risk_score = 0.5,
         ra_reason = Some ''No relevant regulations found'',
         ra_confidence = None,
         ra_analysis_result = None\<rparr>
      else
        (let relevant_reg_text = join [CHR 0x0A, CHR 0x0A] (map (\<lambda>reg. seg_content (ss_segment reg)) (take 5 regulations));
             analysis_result = analyze_compliance business_description relevant_reg_text;
             compliance_status = (case ar_compliance_status analysis_result of None \<Rightarrow> ''Unknown'' | Some s \<Rightarrow> s);
             risk_level = (case ar_risk_level analysis_result of None \<Rightarrow> ''Medium'' | Some l \<Rightarrow> l);
             confidence = (case ar_confidence analysis_result of None \<Rightarrow> 0.5 | Some c \<Rightarrow> c);
             risk_score = calculate_risk_score compliance_status risk_level confidence
         in \<lparr>ra_compliance_status = compliance_status,
             ra_risk_level = risk_level,
             ra_risk_score = risk_score,
             ra_reason = None,
             ra_confidence = Some confidence,
             ra_analysis_result = Some analysis_result\<rparr>))"

subsection \<open>The scoring tables as the specification words them\<close>

datatype compliance_status = Compliant | Violation | Risk | Unknown

datatype risk_level = Low | Medium | High

fun status_name :: "compliance_status \<Rightarrow> string" where
  "status_name Compliant = ''Compliant''"
| "status_name Violation = ''Violation''"
| "status_name Risk = ''Risk''"
| "status_name Unknown = ''Unknown''"

fun level_name :: "risk_level \<Rightarrow> string" where
  "level_name Low = ''Low''"
| "level_name Medium = ''Medium''"
| "level_name High = ''High''"

fun spec_base :: "compliance_status \<Rightarrow> rat" where
  "spec_base Compliant = 0.1"
| "spec_base Violation = 0.9"
| "spec_base Risk = 0.6"
| "spec_base Unknown = 0.5"

fun spec_multiplier :: "risk_level \<Rightarrow> rat" where
  "spec_multiplier Low = 0.3"
| "spec_multiplier Medium = 0.6"
| "spec_multiplier High = 1.0"

definition clamp01 :: "rat \<Rightarrow> rat" where
  "clamp01 x = (if x < 0 then 0 else if x > 1 then 1 else x)"

section \<open>Example data\<close>

text \<open>
  A small world to run the definitions on: identifiers that never repeat, one document
  with two segments, a generation service that extracts nothing, and a regular
  expression engine that finds nothing.
\<close>

definition example_uuid4 :: "nat \<Rightarrow> string" where
  "example_uuid4 n = ''uuid-'' @ replicate n (CHR ''i'')"

definition example_entity :: "string \<Rightarrow> string \<Rightarrow> string \<Rightarrow> string \<Rightarrow> entity" where
  "example_entity ident txt type segment_id =
     \<lparr>ent_id = ident, ent_text = txt, ent_type = type, ent_document_id = ''doc1'',
      ent_segment_id = segment_id, ent_confidence = 0.8,
      ent_source = ''A violates Article 5...''\<rparr>"

definition example_entities :: entity_dict where
  "example_entities =
     [(''legal_articles'', [example_entity ''a1'' ''Article 5'' ''LEGAL_ARTICLE'' ''s1'']),
      (''violations'', [example_entity ''v1'' ''price fixing'' ''VIOLATION'' ''s1'',
                        example_entity ''v2'' ''fraud'' ''VIOLATION'' ''s2'']),
      (''penalties'', []),
      (''responsible_parties'', []),
      (''related_concepts'', [])]"

definition example_services :: services where
  "example_services =
     \<lparr>sv_uuid4 = example_uuid4,
      sv_load_segments = (\<lambda>doc_id. []),
      sv_list_documents = [],
      sv_extract_legal_entities = (\<lambda>text. []),
      sv_findall = (\<lambda>pattern text. []),
      sv_now = ''2024-01-01T00:00:00''\<rparr>"

definition example_node :: "string \<Rightarrow> string \<Rightarrow> string \<Rightarrow> node" where
  "example_node ident label type =
     \<lparr>node_id = ident, node_label = label, node_type = type,
      node_properties =
        \<lparr>np_document_id = ''doc1'', np_confidence = 0.8, np_source = ''A violates Article 5...''\<rparr>\<rparr>"

definition example_edge :: "string \<Rightarrow> string \<Rightarrow> string \<Rightarrow> string \<Rightarrow> edge" where
  "example_edge ident source target relation =
     \<lparr>edge_id = ident, edge_source = source, edge_target = target, edge_relation = relation,
      edge_confidence = 0.7, edge_evidence = ''A violates Article 5...''\<rparr>"

definition example_graph :: graph_data where
  "example_graph =
     \<lparr>g_nodes = [example_node ''n1'' ''Article 5'' ''LEGAL_ARTICLE'',
                 example_node ''n2'' ''Price Fixing'' ''VIOLATION'',
                 example_node ''n3'' ''fine'' ''PENALTY'',
                 example_node ''n4'' ''supplier'' ''RESPONSIBLE_PARTY''],
      g_edges = [example_edge ''e1'' ''n1'' ''n2'' ''regulates'',
                 example_edge ''e2'' ''n2'' ''n3'' ''leads_to'',
                 example_edge ''e3'' ''n1'' ''n3'' ''specifies_penalty''],
      g_metadata =
        \<lparr>md_total_nodes = 4, md_total_edges = 3, md_document_count = 1,
         md_created_at = ''2024-01-01T00:00:00''\<rparr>\<rparr>"

text \<open>
  An article and three spellings of one violation: the first and second spelling agree
  in 10 of 12 positions, the second and third too, the first and third only in 8.
\<close>

definition example_variant_nodes :: "node list" where
  "example_variant_nodes =
     [example_node ''n0'' ''Article 5'' ''LEGAL_ARTICLE'',
      example_node ''n1'' ''price fixing'' ''VIOLATION'',
      example_node ''n2'' ''Price Fixing'' ''VIOLATION'',
      example_node ''n3'' ''PRIce Fixing'' ''VIOLATION'']"

definition example_variant_edges :: "edge list" where
  "example_variant_edges =
     [example_edge ''e1'' ''n0'' ''n2'' ''regulates'',
      example_edge ''e2'' ''n0'' ''n3'' ''regulates'']"

text \<open>
  Two indexed documents with three segments in all; the first and the third stored
  vector are the same.
\<close>

definition example_segment :: "string \<Rightarrow> string \<Rightarrow> nat \<Rightarrow> real list \<Rightarrow> segment" where
  "example_segment ident text i v =
     \<lparr>seg_id = ident, seg_content = text, seg_index = i, seg_vector = Some v\<rparr>"

definition example_vectors :: vectors_data where
  "example_vectors =
     [(''doc1'', \<lparr>ie_document_id = ''doc1'',
                  ie_segments = Some [example_segment ''s1'' ''A violates Article 5'' 0 [1, 0],
                                      example_segment ''s2'' ''Penalty is $1000 fine'' 1 [0, 1]]\<rparr>),
      (''doc2'', \<lparr>ie_document_id = ''doc2'',
                  ie_segments = Some [example_segment ''s3'' ''Article 5 applies to suppliers'' 0 [1, 0]]\<rparr>)]"

text \<open>
  The services as they are without a configured API key, on one document with the single
  segment \<open>Compliance and pricing\<close>: the generation service answers with text that
  holds no JSON object, so entity extraction returns the five empty lists; none of the
  regular expressions matches this text.
\<close>

definition offline_services :: services where
  "offline_services =
     \<lparr>sv_uuid4 = example_uuid4,
      sv_load_segments =
        (\<lambda>doc_id. if doc_id = ''doc1''
                    then [\<lparr>seg_id = ''s1'', seg_content = ''Compliance and pricing'',
                           seg_index = 0, seg_vector = None\<rparr>]
                    else []),
      sv_list_documents = [''doc1''],
      sv_extract_legal_entities =
        (\<lambda>text. [(''legal_articles'', []), (''violations'', []), (''penalties'', []),
                  (''responsible_parties'', []), (''related_concepts'', [])]),
      sv_findall = (\<lambda>pattern text. []),
      sv_now = ''2024-01-01T00:00:00''\<rparr>"

section \<open>Risk score\<close>

lemma to_double_0: "to_double 0 = 0"
  by (simp add: to_double_def)

lemma to_double_1: "to_double 1 = 1"
  by code_simp

lemma double_literals:
  "to_double 0.1 = 3602879701896397 / 2 ^ 55"
  "to_double 0.3 = 5404319552844595 / 2 ^ 54"
  "to_double 0.5 = 1 / 2"
  "to_double 0.6 = 5404319552844595 / 2 ^ 53"
  "to_double 0.9 = 8106479329266893 / 2 ^ 53"
  by code_simp+

lemma base_lookup: "dict_get base_scores (status_name s) (to_double 0.5) = to_double (spec_base s)"
  by (cases s) (simp_all add: dict_get_def base_scores_def)

lemma multiplier_lookup:
  "dict_get risk_multipliers (level_name l) (to_double 0.6) = to_double (spec_multiplier l)"
  by (cases l) (simp_all add: dict_get_def risk_multipliers_def)

lemma multiplier_default:
  "r \<noteq> ''Low'' \<Longrightarrow> r \<noteq> ''Medium'' \<Longrightarrow> r \<noteq> ''High'' \<Longrightarrow>
     dict_get risk_multipliers r (to_double 0.6) = to_double 0.6"
  by (simp add: dict_get_def risk_multipliers_def)

lemma clamp01_min_max: "min (max x (to_double 0.0)) (to_double 1.0) = clamp01 x"
proof -
  have "to_double 0.0 = 0" "to_double 1.0 = 1"
    using to_double_0 to_double_1 by simp_all
  then show ?thesis
    by (simp add: clamp01_def min_def max_def)
qed

lemma clamp01_range: "0 \<le> clamp01 x \<and> clamp01 x \<le> 1"
  by (simp add: clamp01_def)

text \<open>Rounding to the nearest integer, ties to even: the distance, and what a tie gives.\<close>

lemma round_half_even_near:
  "\<bar>y - of_int (round_half_even y)\<bar> \<le> 1 / 2
   \<and> (\<bar>y - of_int (round_half_even y)\<bar> = 1 / 2 \<longrightarrow> even (round_half_even y))"
proof -
  let ?f = "\<lfloor>y\<rfloor>"
  let ?d = "y - of_int ?f"
  have d: "0 \<le> ?d" "?d < 1" by linarith+
  consider "?d < 1 / 2" | "?d > 1 / 2" | "?d = 1 / 2" by linarith
  then show ?thesis
  proof cases
    case 1
    then have "round_half_even y = ?f" by (simp add: round_half_even_def Let_def)
    with 1 d show ?thesis by simp
  next
    case 2
    then have r: "round_half_even y = ?f + 1" by (simp add: round_half_even_def Let_def)
    have "\<bar>y - of_int (?f + 1)\<bar> = 1 - ?d" using d by simp
    with 2 r show ?thesis by simp
  next
    case 3
    then have "round_half_even y = (if even ?f then ?f else ?f + 1)"
      by (simp add: round_half_even_def Let_def)
    moreover have "\<bar>y - of_int (?f + 1)\<bar> = 1 / 2" "\<bar>y - of_int ?f\<bar> = 1 / 2" using 3 by simp_all
    ultimately show ?thesis by auto
  qed
qed

lemma round_half_even_range:
  assumes "0 \<le> y" "y \<le> of_int n"
  shows "0 \<le> round_half_even y \<and> round_half_even y \<le> n"
proof -
  let ?f = "\<lfloor>y\<rfloor>"
  have f: "0 \<le> ?f" "?f \<le> n" using assms by (simp_all add: floor_le_iff le_floor_iff)
  have cases: "round_half_even y = ?f \<or> (round_half_even y = ?f + 1 \<and> y - of_int ?f \<ge> 1 / 2)"
    by (auto simp: round_half_even_def Let_def)
  show ?thesis
  proof (cases "?f = n")
    case True
    then have "y - of_int ?f \<le> 0" using assms(2) by simp
    with cases True f show ?thesis by auto
  next
    case False
    with f cases show ?thesis by auto
  qed
qed


text \<open>
  C1. For each of the four statuses, each of the three levels and every confidence, the
  score is the float product \<open>base * multiplier * confidence\<close> (two rounded
  multiplications, with the tables of the specification as float literals), clamped to
  \<open>[0,1]\<close> and rounded to two decimals; a level outside the table takes the multiplier
  0.6. Rounded to two decimals means: the score is the float nearest to \<open>k/100\<close> for
  a whole number \<open>k\<close> between 0 and 100 that lies within \<open>1/200\<close> of the clamped
  product, an exact tie giving an even \<open>k\<close>. Violation, High, 0.9 gives 0.81, and
  Compliant, Low, 0.5 gives 0.01 (the float product is just below 0.015).
\<close>

theorem risk_score_formula:
  "calculate_risk_score (status_name s) (level_name l) c
     = py_round (clamp01 (float_mul (float_mul (to_double (spec_base s)) (to_double (spec_multiplier l))) c)) 2
   \<and> (r \<notin> {''Low'', ''Medium'', ''High''} \<longrightarrow>
        calculate_risk_score (status_name s) r c
          = py_round (clamp01 (float_mul (float_mul (to_double (spec_base s)) (to_double 0.6)) c)) 2)
   \<and> (\<exists>k. 0 \<le> k \<and> k \<le> 100
         \<and> calculate_risk_score (status_name s) (level_name l) c = to_double (of_int k / 100)
         \<and> \<bar>clamp01 (float_mul (float_mul (to_double (spec_base s)) (to_double (spec_multiplier l))) c)
               - of_int k / 100\<bar> \<le> 1 / 200
         \<and> (\<bar>clamp01 (float_mul (float_mul (to_double (spec_base s)) (to_double (spec_multiplier l))) c)
               - of_int k / 100\<bar> = 1 / 200 \<longrightarrow> even k))
   \<and> calculate_risk_score ''Violation'' ''High'' (to_double 0.9) = to_double 0.81
   \<and> calculate_risk_score ''Compliant'' ''Low'' (to_double 0.5) = to_double 0.01"
proof (intro conjI impI)
  let ?x = "clamp01 (float_mul (float_mul (to_double (spec_base s)) (to_double (spec_multiplier l))) c)"
  show eq: "calculate_risk_score (status_name s) (level_name l) c = py_round ?x 2"
    unfolding calculate_risk_score_def Let_def base_lookup multiplier_lookup clamp01_min_max ..
  let ?k = "round_half_even (?x * 10 ^ 2)"
  have x: "0 \<le> ?x * 10 ^ 2" "?x * 10 ^ 2 \<le> of_int 100"
    using clamp01_range[of "float_mul (float_mul (to_double (spec_base s)) (to_double (spec_multiplier l))) c"]
    by simp_all
  note range = round_half_even_range[OF x]
  note near = round_half_even_near[of "?x * 10 ^ 2"]
  have dist: "\<bar>?x - of_int ?k / 100\<bar> = \<bar>?x * 10 ^ 2 - of_int ?k\<bar> / 100"
    by (simp add: abs_if field_simps)
  have "calculate_risk_score (status_name s) (level_name l) c = to_double (of_int ?k / 100)"
    unfolding eq py_round_def by simp
  moreover have "\<bar>?x - of_int ?k / 100\<bar> \<le> 1 / 200"
    unfolding dist using near by simp
  moreover have "\<bar>?x - of_int ?k / 100\<bar> = 1 / 200 \<longrightarrow> even ?k"
    unfolding dist using near by simp
  ultimately show "\<exists>k. 0 \<le> k \<and> k \<le> 100
         \<and> calculate_risk_score (status_name s) (level_name l) c = to_double (of_int k / 100)
         \<and> \<bar>?x - of_int k / 100\<bar> \<le> 1 / 200
         \<and> (\<bar>?x - of_int k / 100\<bar> = 1 / 200 \<longrightarrow> even k)"
    using range by blast
next
  assume "r \<notin> {''Low'', ''Medium'', ''High''}"
  then have md: "dict_get risk_multipliers r (to_double 0.6) = to_double 0.6"
    by (intro multiplier_default) auto
  show "calculate_risk_score (status_name s) r c
          = py_round (clamp01 (float_mul (float_mul (to_double (spec_base s)) (to_double 0.6)) c)) 2"
    unfolding calculate_risk_score_def Let_def base_lookup clamp01_min_max md ..
next
  show "calculate_risk_score ''Violation'' ''High'' (to_double 0.9) = to_double 0.81"
    by code_simp
  show "calculate_risk_score ''Compliant'' ''Low'' (to_double 0.5) = to_double 0.01"
    by code_simp
qed

text \<open>
  An unrecognised level at confidence 0.5, and a product just above 0.005.
\<close>

theorem risk_score_formula_witness:
  "''Critical'' \<notin> {''Low'', ''Medium'', ''High''}
   \<and> calculate_risk_score ''Risk'' ''Critical'' (to_double 0.5) = to_double 0.18
   \<and> calculate_risk_score ''Compliant'' ''High'' (to_double 0.05) = to_double 0.01"
proof -
  have "py_round (clamp01 (float_mul (float_mul (to_double (spec_base Risk)) (to_double 0.6)) (to_double 0.5))) 2
          = to_double 0.18"
    by code_simp
  moreover have "py_round (clamp01 (float_mul (float_mul (to_double (spec_base Compliant))
                    (to_double (spec_multiplier High))) (to_double 0.05))) 2 = to_double 0.01"
    by code_simp
  ultimately show ?thesis
    using risk_score_formula [of Risk Low "to_double 0.5" "''Critical''"]
      risk_score_formula [of Compliant High "to_double 0.05" "''Critical''"]
    by simp
qed

section \<open>No regulations found\<close>

text \<open>
  C2 as stated: with no regulation segments the assessment has status \<open>Unknown\<close>. The
  code answers with the status string \<open>Unable to Determine\<close> instead.
\<close>

theorem no_regulations_status_counterexample:
  "ra_compliance_status
     (assess_compliance_risk
        (\<lambda>business_data regulations.
           \<lparr>ar_compliance_status = Some ''Violation'', ar_risk_level = Some ''High'',
            ar_confidence = Some 0.9\<rparr>)
        ''Detailed Description: we fix prices with competitors'' [])
   \<noteq> ''Unknown''"
  by (simp add: assess_compliance_risk_def)

text \<open>
  C2, amended. With an empty list of regulation segments, whatever the description and
  whatever the generation service would have answered, the assessment is the fixed
  record: status \<open>Unable to Determine\<close>, risk level \<open>Medium\<close>, risk score 0.5, with
  the reason attached; the generation service is not consulted and nothing is raised.
\<close>

theorem no_regulations_fixed_result:
  "assess_compliance_risk analyze_compliance business_description [] =
     \<lparr>ra_compliance_status = ''Unable to Determine'',
      ra_risk_level = ''Medium'',
      ra_risk_score = 0.5,
      ra_reason = Some ''No relevant regulations found'',
      ra_confidence = None,
      ra_analysis_result = None\<rparr>"
  by (simp add: assess_compliance_risk_def)

section \<open>Context building\<close>

lemma doc_texts_Cons: "doc_texts i (d # ds) = doc_text i d # doc_texts (Suc i) ds"
  by (simp add: doc_texts_def upt_rec)

lemma doc_texts_Nil: "doc_texts i [] = []"
  by (simp add: doc_texts_def)

text \<open>
  The loop, started anywhere: \<open>k\<close> items are taken whole, and the next one, if there
  is one, is the first that does not fit.
\<close>

lemma build_context_parts_char:
  "\<exists>k\<le>length docs.
      (k = 0 \<or> int c + int (total_length (take k (doc_texts i docs))) \<le> m)
    \<and> (k < length docs \<longrightarrow>
          int c + int (total_length (take k (doc_texts i docs))) + int (length (doc_texts i docs ! k)) > m)
    \<and> build_context_parts m c i docs parts =
        parts @ take k (doc_texts i docs) @
          (if k < length docs \<and> m - (int c + int (total_length (take k (doc_texts i docs)))) > 100
           then [take (nat (m - (int c + int (total_length (take k (doc_texts i docs)))))) (doc_texts i docs ! k) @ ''...'']
           else [])"
proof (induction docs arbitrary: c i parts)
  case Nil
  then show ?case by (simp add: doc_texts_Nil total_length_def)
next
  case (Cons d ds)
  show ?case
  proof (cases "int c + int (length (doc_text i d)) > m")
    case True
    then show ?thesis
      by (intro exI[of _ 0]) (simp add: doc_texts_Cons total_length_def Let_def)
  next
    case False
    from Cons.IH[of "c + length (doc_text i d)" "Suc i" "parts @ [doc_text i d]"]
    obtain k where k: "k \<le> length ds"
      "k = 0 \<or> int (c + length (doc_text i d)) + int (total_length (take k (doc_texts (Suc i) ds))) \<le> m"
      "k < length ds \<longrightarrow> int (c + length (doc_text i d)) + int (total_length (take k (doc_texts (Suc i) ds))) + int (length (doc_texts (Suc i) ds ! k)) > m"
      "build_context_parts m (c + length (doc_text i d)) (Suc i) ds (parts @ [doc_text i d]) =
        (parts @ [doc_text i d]) @ take k (doc_texts (Suc i) ds) @
          (if k < length ds \<and> m - (int (c + length (doc_text i d)) + int (total_length (take k (doc_texts (Suc i) ds)))) > 100
           then [take (nat (m - (int (c + length (doc_text i d)) + int (total_length (take k (doc_texts (Suc i) ds)))))) (doc_texts (Suc i) ds ! k) @ ''...'']
           else [])"
      by blast
    have tl: "int c + int (total_length (take (Suc k) (doc_texts i (d # ds))))
            = int (c + length (doc_text i d)) + int (total_length (take k (doc_texts (Suc i) ds)))"
      by (simp add: doc_texts_Cons total_length_def)
    show ?thesis
    proof (intro exI[of _ "Suc k"] conjI)
      show "Suc k \<le> length (d # ds)" using k(1) by simp
      show "Suc k = 0 \<or> int c + int (total_length (take (Suc k) (doc_texts i (d # ds)))) \<le> m"
        using k(2) False unfolding tl by (auto simp: total_length_def)
      show "Suc k < length (d # ds) \<longrightarrow>
          int c + int (total_length (take (Suc k) (doc_texts i (d # ds)))) + int (length (doc_texts i (d # ds) ! Suc k)) > m"
        using k(3) unfolding tl by (simp add: doc_texts_Cons)
      show "build_context_parts m c i (d # ds) parts =
        parts @ take (Suc k) (doc_texts i (d # ds)) @
          (if Suc k < length (d # ds) \<and> m - (int c + int (total_length (take (Suc k) (doc_texts i (d # ds))))) > 100
           then [take (nat (m - (int c + int (total_length (take (Suc k) (doc_texts i (d # ds))))))) (doc_texts i (d # ds) ! Suc k) @ ''...'']
           else [])"
        using False k(4) unfolding tl by (simp add: doc_texts_Cons)
    qed
  qed
qed

text \<open>
  C8 as stated: an overflowing item is truncated when at least 100 characters of budget
  remain. With a budget of exactly 100 and nothing used yet, the item that overflows is
  dropped: the code asks for more than 100.
\<close>

theorem context_budget_100_counterexample:
  "(100 :: int) - 0 \<ge> 100
   \<and> int (length (doc_text 1 (KgContext (replicate 100 (CHR ''x''))))) > 100
   \<and> build_context_text [KgContext (replicate 100 (CHR ''x''))] 100 = ''''"
proof -
  have len: "length (doc_text (Suc 0) (KgContext (replicate 100 (CHR ''x'')))) = 113"
    by (simp add: doc_text_def)
  show ?thesis
    by (simp add: build_context_text_def len)
qed

text \<open>
  C8, amended. The items are rendered as \<open>"[Document i] <content>"\<close>, numbered from 1.
  Some number \<open>k\<close> of leading items is taken whole, their summed length within
  \<open>max_length\<close>; item \<open>k + 1\<close>, if there is one, is the first whose length would take
  the sum past \<open>max_length\<close>. That item is cut to the remaining budget and suffixed
  with \<open>...\<close> when more than 100 characters of budget remain, and dropped otherwise;
  nothing after it is looked at. The parts are joined by blank lines.
\<close>

theorem context_text_budget:
  "\<exists>k\<le>length docs.
      (k = 0 \<or> int (total_length (take k (doc_texts 1 docs))) \<le> max_length)
    \<and> (k < length docs \<longrightarrow>
          int (total_length (take k (doc_texts 1 docs))) + int (length (doc_texts 1 docs ! k)) > max_length)
    \<and> build_context_text docs max_length =
        join [CHR 0x0A, CHR 0x0A]
          (take k (doc_texts 1 docs) @
            (if k < length docs \<and> max_length - int (total_length (take k (doc_texts 1 docs))) > 100
             then [take (nat (max_length - int (total_length (take k (doc_texts 1 docs)))))
                     (doc_texts 1 docs ! k) @ ''...'']
             else []))"
proof -
  from build_context_parts_char [of docs 0 1 max_length "[]"]
  obtain k where k: "k \<le> length docs"
    "k = 0 \<or> int 0 + int (total_length (take k (doc_texts 1 docs))) \<le> max_length"
    "k < length docs \<longrightarrow>
       int 0 + int (total_length (take k (doc_texts 1 docs))) + int (length (doc_texts 1 docs ! k)) > max_length"
    "build_context_parts max_length 0 1 docs [] =
       [] @ take k (doc_texts 1 docs) @
         (if k < length docs \<and> max_length - (int 0 + int (total_length (take k (doc_texts 1 docs)))) > 100
          then [take (nat (max_length - (int 0 + int (total_length (take k (doc_texts 1 docs))))))
                  (doc_texts 1 docs ! k) @ ''...'']
          else [])"
    by blast
  have z: "int 0 + x = x" for x by simp
  note k' = k[unfolded z append_Nil]
  show ?thesis
    unfolding build_context_text_def
    by (rule exI[of _ k]) (use k' in presburger)
qed


text \<open>
  Two items and a budget of 150: the first (16 characters) is taken whole, the second is
  cut to the 134 characters that remain.
\<close>

theorem context_text_budget_witness:
  "build_context_text [KgContext ''abc'', KgContext (replicate 200 (CHR ''x''))] 150
     = ''[Document 1] abc'' @ [CHR 0x0A, CHR 0x0A]
       @ take 134 (''[Document 2] '' @ replicate 200 (CHR ''x'')) @ ''...''"
proof -
  let ?docs = "[KgContext ''abc'', KgContext (replicate 200 (CHR ''x''))]"
  have s2: "str_nat 2 = ''2''" by simp
  have texts: "doc_texts 1 ?docs = [''[Document 1] abc'', ''[Document 2] '' @ replicate 200 (CHR ''x'')]"
    by (simp add: doc_texts_def doc_text_def upt_rec s2)
  from context_text_budget [of ?docs 150]
  obtain k where k: "k \<le> length ?docs"
    "k = 0 \<or> int (total_length (take k (doc_texts 1 ?docs))) \<le> 150"
    "k < length ?docs \<longrightarrow>
       int (total_length (take k (doc_texts 1 ?docs))) + int (length (doc_texts 1 ?docs ! k)) > 150"
    "build_context_text ?docs 150 =
        join [CHR 0x0A, CHR 0x0A]
          (take k (doc_texts 1 ?docs) @
            (if k < length ?docs \<and> 150 - int (total_length (take k (doc_texts 1 ?docs))) > 100
             then [take (nat (150 - int (total_length (take k (doc_texts 1 ?docs)))))
                     (doc_texts 1 ?docs ! k) @ ''...'']
             else []))"
    by blast
  from k(1) have "k = 0 \<or> k = 1 \<or> k = 2" by auto
  moreover have "k \<noteq> 0"
  proof
    assume "k = 0"
    with k(3) show False unfolding texts by (simp add: total_length_def)
  qed
  moreover have "k \<noteq> 2"
  proof
    assume "k = 2"
    with k(2) show False unfolding texts by (simp add: total_length_def)
  qed
  ultimately have k1: "k = 1" by blast
  show ?thesis
    using k(4) unfolding k1 texts by (simp add: total_length_def)
qed

section \<open>Relationship inference\<close>

lemma relation_map_range:
  "map_of relation_map k = Some r \<Longrightarrow>
     r \<in> {''regulates'', ''leads_to'', ''specifies_penalty'', ''commits'', ''involves'', ''defines''}"
  by (auto simp: relation_map_def split: if_splits)

lemma determine_relation_type_Some:
  "determine_relation_type t1 t2 \<noteq> '''' \<Longrightarrow>
     map_of relation_map (t1, t2) = Some (determine_relation_type t1 t2)"
  by (simp add: determine_relation_type_def dict_get_def split: option.splits)

lemma determine_relation_type_None:
  "map_of relation_map (t1, t2) = None \<Longrightarrow> determine_relation_type t1 t2 = ''''"
  by (simp add: determine_relation_type_def dict_get_def)

lemma in_related_pairs:
  "(entity1, entity2, r) \<in> set (related_pairs entities) \<longleftrightarrow>
     (\<exists>entity_type1 entity_list1 entity_type2 entity_list2.
           (entity_type1, entity_list1) \<in> set entities \<and> entity1 \<in> set entity_list1
         \<and> (entity_type2, entity_list2) \<in> set entities \<and> entity2 \<in> set entity_list2
         \<and> entity_type1 \<noteq> entity_type2
         \<and> ent_segment_id entity1 = ent_segment_id entity2
         \<and> r = determine_relation_type entity_type1 entity_type2 \<and> r \<noteq> '''')"
  unfolding related_pairs_def by (auto split: if_splits) blast+

lemma related_pairs_sound:
  assumes "(entity1, entity2, r) \<in> set (related_pairs entities)"
  shows "\<exists>entity_type1 entity_list1 entity_type2 entity_list2.
           (entity_type1, entity_list1) \<in> set entities \<and> entity1 \<in> set entity_list1
         \<and> (entity_type2, entity_list2) \<in> set entities \<and> entity2 \<in> set entity_list2
         \<and> entity_type1 \<noteq> entity_type2
         \<and> ent_segment_id entity1 = ent_segment_id entity2
         \<and> map_of relation_map (entity_type1, entity_type2) = Some r"
proof -
  from assms obtain t1 l1 t2 l2 where h:
    "(t1, l1) \<in> set entities" "entity1 \<in> set l1" "(t2, l2) \<in> set entities" "entity2 \<in> set l2"
    "t1 \<noteq> t2" "ent_segment_id entity1 = ent_segment_id entity2"
    "r = determine_relation_type t1 t2" "r \<noteq> ''''"
    unfolding in_related_pairs by blast
  from h(7,8) have "map_of relation_map (t1, t2) = Some r"
    using determine_relation_type_Some by blast
  with h show ?thesis by blast
qed

lemma related_pairs_complete:
  assumes "(entity_type1, entity_list1) \<in> set entities" "entity1 \<in> set entity_list1"
    "(entity_type2, entity_list2) \<in> set entities" "entity2 \<in> set entity_list2"
    "entity_type1 \<noteq> entity_type2" "ent_segment_id entity1 = ent_segment_id entity2"
    "map_of relation_map (entity_type1, entity_type2) = Some r"
  shows "(entity1, entity2, r) \<in> set (related_pairs entities)"
proof -
  have r: "r = determine_relation_type entity_type1 entity_type2"
    using assms(7) by (simp add: determine_relation_type_def dict_get_def)
  have "r \<noteq> ''''" using relation_map_range[OF assms(7)] by auto
  with assms(1-6) r show ?thesis
    unfolding in_related_pairs by blast
qed

lemma find_relationships_edges:
  "e \<in> set (fst (find_relationships sv entities n)) \<Longrightarrow>
     \<exists>entity1 entity2 r. (entity1, entity2, r) \<in> set (related_pairs entities)
        \<and> edge_source e = ent_id entity1 \<and> edge_target e = ent_id entity2 \<and> edge_relation e = r"
  unfolding find_relationships_def
  by (auto simp: in_set_enumerate_eq) (metis nth_mem)

text \<open>
  C6. Every edge that relationship inference produces joins two entities listed under
  different categories of the mapping and carrying the same segment id; its relation
  type is the entry of the category-pair table for (source category, target category),
  hence one of the six relation types of the table; and when no pair of categories of
  the mapping has an entry in the table, no edge is produced.
\<close>

theorem relationships_follow_table:
  "(e \<in> set (fst (find_relationships sv entities n)) \<longrightarrow>
      (\<exists>entity_type1 entity_list1 entity1 entity_type2 entity_list2 entity2.
          (entity_type1, entity_list1) \<in> set entities \<and> entity1 \<in> set entity_list1
        \<and> (entity_type2, entity_list2) \<in> set entities \<and> entity2 \<in> set entity_list2
        \<and> entity_type1 \<noteq> entity_type2
        \<and> ent_segment_id entity1 = ent_segment_id entity2
        \<and> edge_source e = ent_id entity1 \<and> edge_target e = ent_id entity2
        \<and> map_of relation_map (entity_type1, entity_type2) = Some (edge_relation e))
      \<and> edge_relation e \<in> {''regulates'', ''leads_to'', ''specifies_penalty'',
                             ''commits'', ''involves'', ''defines''})
   \<and> ((\<forall>(entity_type1, entity_list1) \<in> set entities.
         \<forall>(entity_type2, entity_list2) \<in> set entities.
            map_of relation_map (entity_type1, entity_type2) = None)
        \<longrightarrow> fst (find_relationships sv entities n) = [])"
proof (intro conjI impI)
  assume e: "e \<in> set (fst (find_relationships sv entities n))"
  then obtain entity1 entity2 r where p: "(entity1, entity2, r) \<in> set (related_pairs entities)"
    and ends: "edge_source e = ent_id entity1" "edge_target e = ent_id entity2" "edge_relation e = r"
    using find_relationships_edges by blast
  from related_pairs_sound[OF p] obtain t1 l1 t2 l2 where h:
    "(t1, l1) \<in> set entities" "entity1 \<in> set l1" "(t2, l2) \<in> set entities" "entity2 \<in> set l2"
    "t1 \<noteq> t2" "ent_segment_id entity1 = ent_segment_id entity2"
    "map_of relation_map (t1, t2) = Some r"
    by blast
  from h ends show "\<exists>entity_type1 entity_list1 entity1 entity_type2 entity_list2 entity2.
          (entity_type1, entity_list1) \<in> set entities \<and> entity1 \<in> set entity_list1
        \<and> (entity_type2, entity_list2) \<in> set entities \<and> entity2 \<in> set entity_list2
        \<and> entity_type1 \<noteq> entity_type2
        \<and> ent_segment_id entity1 = ent_segment_id entity2
        \<and> edge_source e = ent_id entity1 \<and> edge_target e = ent_id entity2
        \<and> map_of relation_map (entity_type1, entity_type2) = Some (edge_relation e)"
    by blast
  from relation_map_range[OF h(7)] ends(3)
  show "edge_relation e \<in> {''regulates'', ''leads_to'', ''specifies_penalty'',
                             ''commits'', ''involves'', ''defines''}"
    by simp
next
  assume absent: "\<forall>(entity_type1, entity_list1) \<in> set entities.
         \<forall>(entity_type2, entity_list2) \<in> set entities.
            map_of relation_map (entity_type1, entity_type2) = None"
  have "set (related_pairs entities) = {}"
  proof (rule ccontr)
    assume "set (related_pairs entities) \<noteq> {}"
    then obtain entity1 entity2 r where "(entity1, entity2, r) \<in> set (related_pairs entities)"
      by (metis ex_in_conv prod_cases3)
    from related_pairs_sound[OF this] absent show False by fastforce
  qed
  then show "fst (find_relationships sv entities n) = []"
    by (simp add: find_relationships_def)
qed

lemma example_pairs:
  "related_pairs example_entities =
     [(example_entity ''a1'' ''Article 5'' ''LEGAL_ARTICLE'' ''s1'',
       example_entity ''v1'' ''price fixing'' ''VIOLATION'' ''s1'', ''regulates'')]"
  by (simp add: related_pairs_def example_entities_def example_entity_def
        determine_relation_type_def dict_get_def relation_map_def)

text \<open>
  An article and a violation of segment \<open>s1\<close> are joined by a \<open>regulates\<close> edge; a
  penalty and a responsible party, a pair the table does not list, are not joined.
\<close>

theorem relationships_follow_table_witness:
  "\<lparr>edge_id = ''uuid-'', edge_source = ''a1'', edge_target = ''v1'',
     edge_relation = ''regulates'', edge_confidence = 0.7,
     edge_evidence = ''A violates Article 5...''\<rparr>
     \<in> set (fst (find_relationships example_services example_entities 0))
   \<and> map_of relation_map (''legal_articles'', ''violations'') = Some ''regulates''
   \<and> fst (find_relationships example_services
             [(''penalties'', [example_entity ''p1'' ''fine'' ''PENALTY'' ''s1'']),
              (''responsible_parties'', [example_entity ''r1'' ''supplier'' ''RESPONSIBLE_PARTY'' ''s1''])]
             0) = []"
proof -
  let ?e = "\<lparr>edge_id = ''uuid-'', edge_source = ''a1'', edge_target = ''v1'',
     edge_relation = ''regulates'', edge_confidence = 0.7,
     edge_evidence = ''A violates Article 5...''\<rparr>"
  let ?quiet = "[(''penalties'', [example_entity ''p1'' ''fine'' ''PENALTY'' ''s1'']),
              (''responsible_parties'', [example_entity ''r1'' ''supplier'' ''RESPONSIBLE_PARTY'' ''s1''])]"
  have mem: "?e \<in> set (fst (find_relationships example_services example_entities 0))"
    by (simp add: find_relationships_def example_pairs enumerate_eq_zip example_services_def
          example_uuid4_def example_entity_def)
  from relationships_follow_table [of ?e example_services example_entities 0] mem
  have "edge_relation ?e \<in> {''regulates'', ''leads_to'', ''specifies_penalty'',
                             ''commits'', ''involves'', ''defines''}"
    by blast
  have absent: "\<forall>(entity_type1, entity_list1) \<in> set ?quiet.
         \<forall>(entity_type2, entity_list2) \<in> set ?quiet.
            map_of relation_map (entity_type1, entity_type2) = None"
    by (simp add: relation_map_def)
  from relationships_follow_table [of ?e example_services ?quiet 0] absent
  have "fst (find_relationships example_services ?quiet 0) = []"
    by blast
  moreover have "map_of relation_map (''legal_articles'', ''violations'') = Some ''regulates''"
    by (simp add: relation_map_def)
  ultimately show ?thesis using mem by blast
qed

section \<open>Querying the graph\<close>

text \<open>
  The edge loop, started with any edges and ids: ids are only added, every edge it
  appends passed the filter and has both ends among the final ids, and every final id
  was there at the start or is an end of an appended edge.
\<close>

lemma collect_related_edges_inv:
  assumes "collect_related_edges rt es (acc, ids) = (acc', ids')"
  shows "ids \<subseteq> ids'
       \<and> set acc \<subseteq> set acc'
       \<and> (\<forall>e\<in>set acc'. e \<in> set acc \<or> (e \<in> set es \<and> edge_source e \<in> ids' \<and> edge_target e \<in> ids'
                              \<and> (rt = None \<or> Some (edge_relation e) = rt)))
       \<and> (\<forall>i\<in>ids'. i \<in> ids \<or> (\<exists>e\<in>set acc'. e \<notin> set acc \<and> (i = edge_source e \<or> i = edge_target e))
                        \<or> (\<exists>e\<in>set acc'. i = edge_source e \<or> i = edge_target e))"
  using assms
proof (induction es arbitrary: acc ids)
  case Nil
  then show ?case by auto
next
  case (Cons e es)
  show ?case
  proof (cases "(edge_source e \<in> ids \<or> edge_target e \<in> ids)
         \<and> (rt = None \<or> Some (edge_relation e) = rt)")
    case True
    with Cons.prems have
      "collect_related_edges rt es (acc @ [e], insert (edge_target e) (insert (edge_source e) ids)) = (acc', ids')"
      by simp
    from Cons.IH[OF this] have ih:
      "insert (edge_target e) (insert (edge_source e) ids) \<subseteq> ids'"
      "set (acc @ [e]) \<subseteq> set acc'"
      "\<forall>x\<in>set acc'. x \<in> set (acc @ [e]) \<or> (x \<in> set es \<and> edge_source x \<in> ids' \<and> edge_target x \<in> ids'
                              \<and> (rt = None \<or> Some (edge_relation x) = rt))"
      "\<forall>i\<in>ids'. i \<in> insert (edge_target e) (insert (edge_source e) ids)
            \<or> (\<exists>x\<in>set acc'. x \<notin> set (acc @ [e]) \<and> (i = edge_source x \<or> i = edge_target x))
            \<or> (\<exists>x\<in>set acc'. i = edge_source x \<or> i = edge_target x)"
      by blast+
    have e_in: "e \<in> set acc'" using ih(2) by auto
    show ?thesis
    proof (intro conjI ballI)
      show "ids \<subseteq> ids'" using ih(1) by blast
      show "set acc \<subseteq> set acc'" using ih(2) by auto
    next
      fix x assume "x \<in> set acc'"
      with ih(3) have "x \<in> set (acc @ [e]) \<or> (x \<in> set es \<and> edge_source x \<in> ids' \<and> edge_target x \<in> ids'
                              \<and> (rt = None \<or> Some (edge_relation x) = rt))" by blast
      then show "x \<in> set acc \<or> (x \<in> set (e # es) \<and> edge_source x \<in> ids' \<and> edge_target x \<in> ids'
                              \<and> (rt = None \<or> Some (edge_relation x) = rt))"
        using ih(1) True by auto
    next
      fix i assume "i \<in> ids'"
      with ih(4) e_in
      show "i \<in> ids \<or> (\<exists>e\<in>set acc'. e \<notin> set acc \<and> (i = edge_source e \<or> i = edge_target e))
                        \<or> (\<exists>e\<in>set acc'. i = edge_source e \<or> i = edge_target e)"
        by blast
    qed
  next
    case False
    with Cons.prems have "collect_related_edges rt es (acc, ids) = (acc', ids')"
      by auto
    from Cons.IH[OF this] show ?thesis by auto
  qed
qed

lemma collect_related_edges_closed:
  assumes "collect_related_edges rt es ([], ids) = (acc', ids')"
  shows "(\<forall>e\<in>set acc'. e \<in> set es \<and> edge_source e \<in> ids' \<and> edge_target e \<in> ids'
                       \<and> (rt = None \<or> Some (edge_relation e) = rt))
       \<and> (\<forall>i\<in>ids'. i \<in> ids \<or> (\<exists>e\<in>set acc'. i = edge_source e \<or> i = edge_target e))"
  using collect_related_edges_inv[OF assms] by auto

text \<open>
  C10. For a stored graph whose node ids are pairwise different (ids are unique in the
  data model) and whose edges all start and end at ids of its nodes, and for every query
  string and optional relation type: both ends of every returned edge are ids of
  returned nodes, and every returned node has the lower-cased query as a substring of
  its lower-cased label or is an end of a returned edge.
\<close>

theorem query_result_closed:
  assumes "distinct (map node_id (g_nodes graph))"
    and "\<forall>e\<in>set (g_edges graph).
           edge_source e \<in> node_id ` set (g_nodes graph) \<and> edge_target e \<in> node_id ` set (g_nodes graph)"
  shows "(\<forall>e\<in>set (qr_edges (query_knowledge_graph (Some graph) entity_name relation_type)).
            (\<exists>n\<in>set (qr_nodes (query_knowledge_graph (Some graph) entity_name relation_type)).
                node_id n = edge_source e)
          \<and> (\<exists>n\<in>set (qr_nodes (query_knowledge_graph (Some graph) entity_name relation_type)).
                node_id n = edge_target e))
       \<and> (\<forall>n\<in>set (qr_nodes (query_knowledge_graph (Some graph) entity_name relation_type)).
            sublist (lower entity_name) (lower (node_label n))
          \<or> (\<exists>e\<in>set (qr_edges (query_knowledge_graph (Some graph) entity_name relation_type)).
                node_id n = edge_source e \<or> node_id n = edge_target e))"
proof -
  let ?matching = "filter (\<lambda>node. sublist (lower entity_name) (lower (node_label node))) (g_nodes graph)"
  obtain acc' ids' where c:
    "collect_related_edges relation_type (g_edges graph) ([], set (map node_id ?matching)) = (acc', ids')"
    by (cases "collect_related_edges relation_type (g_edges graph) ([], set (map node_id ?matching))") blast
  have res_nodes: "qr_nodes (query_knowledge_graph (Some graph) entity_name relation_type)
                   = filter (\<lambda>node. node_id node \<in> ids') (g_nodes graph)"
    and res_edges: "qr_edges (query_knowledge_graph (Some graph) entity_name relation_type) = acc'"
    using c by (simp_all add: query_knowledge_graph_def Let_def)
  note cl = collect_related_edges_closed[OF c]
  show ?thesis
    unfolding res_nodes res_edges
  proof (intro conjI ballI)
    fix e assume e: "e \<in> set acc'"
    with cl have in_es: "e \<in> set (g_edges graph)" and s: "edge_source e \<in> ids'" and t: "edge_target e \<in> ids'"
      by blast+
    from assms(2) in_es obtain n where "n \<in> set (g_nodes graph)" "node_id n = edge_source e"
      by (metis imageE)
    with s show "\<exists>n\<in>set (filter (\<lambda>node. node_id node \<in> ids') (g_nodes graph)). node_id n = edge_source e"
      by auto
    from assms(2) in_es obtain m where "m \<in> set (g_nodes graph)" "node_id m = edge_target e"
      by (metis imageE)
    with t show "\<exists>n\<in>set (filter (\<lambda>node. node_id node \<in> ids') (g_nodes graph)). node_id n = edge_target e"
      by auto
  next
    fix n assume "n \<in> set (filter (\<lambda>node. node_id node \<in> ids') (g_nodes graph))"
    then have n: "n \<in> set (g_nodes graph)" "node_id n \<in> ids'" by auto
    from cl n(2) consider "node_id n \<in> set (map node_id ?matching)"
      | "\<exists>e\<in>set acc'. node_id n = edge_source e \<or> node_id n = edge_target e"
      by blast
    then show "sublist (lower entity_name) (lower (node_label n))
          \<or> (\<exists>e\<in>set acc'. node_id n = edge_source e \<or> node_id n = edge_target e)"
    proof cases
      case 1
      then obtain m where m: "m \<in> set (g_nodes graph)" "sublist (lower entity_name) (lower (node_label m))"
        "node_id m = node_id n" by auto
      from assms(1) m(1,3) n(1) have "m = n"
        by (meson distinct_map inj_onD)
      with m(2) show ?thesis by simp
    next
      case 2
      then show ?thesis by simp
    qed
  qed
qed


text \<open>
  The query \<open>price\<close> on the example graph matches the node \<open>Price Fixing\<close> and returns
  the three edges with the three nodes they touch; the fourth node is left out.
\<close>

lemma example_query:
  "query_knowledge_graph (Some example_graph) ''price'' None =
     \<lparr>qr_nodes = [example_node ''n1'' ''Article 5'' ''LEGAL_ARTICLE'',
                  example_node ''n2'' ''Price Fixing'' ''VIOLATION'',
                  example_node ''n3'' ''fine'' ''PENALTY''],
      qr_edges = [example_edge ''e1'' ''n1'' ''n2'' ''regulates'',
                  example_edge ''e2'' ''n2'' ''n3'' ''leads_to'',
                  example_edge ''e3'' ''n1'' ''n3'' ''specifies_penalty''],
      qr_message = None,
      qr_query_info = Some \<lparr>qi_entity_name = ''price'', qi_relation_type = None, qi_found_matches = 1\<rparr>\<rparr>"
  by (simp add: query_knowledge_graph_def example_graph_def example_node_def example_edge_def
        lower_def lower_char_def sublist_Cons_right)

theorem query_result_closed_witness:
  "distinct (map node_id (g_nodes example_graph))
   \<and> list_all (\<lambda>e. edge_source e \<in> node_id ` set (g_nodes example_graph)
                   \<and> edge_target e \<in> node_id ` set (g_nodes example_graph))
        (g_edges example_graph)
   \<and> length (qr_edges (query_knowledge_graph (Some example_graph) ''price'' None)) = 3
   \<and> list_all (\<lambda>e. list_ex (\<lambda>n. node_id n = edge_source e)
                       (qr_nodes (query_knowledge_graph (Some example_graph) ''price'' None))
                   \<and> list_ex (\<lambda>n. node_id n = edge_target e)
                       (qr_nodes (query_knowledge_graph (Some example_graph) ''price'' None)))
        (qr_edges (query_knowledge_graph (Some example_graph) ''price'' None))
   \<and> list_all (\<lambda>n. sublist ''price'' (lower (node_label n))
                   \<or> list_ex (\<lambda>e. node_id n = edge_source e \<or> node_id n = edge_target e)
                        (qr_edges (query_knowledge_graph (Some example_graph) ''price'' None)))
        (qr_nodes (query_knowledge_graph (Some example_graph) ''price'' None))"
proof -
  have d: "distinct (map node_id (g_nodes example_graph))"
    by (simp add: example_graph_def example_node_def)
  have c: "\<forall>e\<in>set (g_edges example_graph).
             edge_source e \<in> node_id ` set (g_nodes example_graph)
           \<and> edge_target e \<in> node_id ` set (g_nodes example_graph)"
    by (simp add: example_graph_def example_node_def example_edge_def)
  have l: "lower ''price'' = ''price''"
    by (simp add: lower_def lower_char_def)
  have n: "length (qr_edges (query_knowledge_graph (Some example_graph) ''price'' None)) = 3"
    by (simp add: example_query)
  from query_result_closed [OF d c, of "''price''" None] d c n
  show ?thesis
    unfolding l list_all_iff list_ex_iff by blast
qed

section \<open>Merging similar nodes\<close>

subsection \<open>Similarity of labels\<close>

lemma count_zip_matches:
  "length (filter (\<lambda>(a, b). a = b) (zip xs ys)) = matching_positions xs ys"
proof -
  have "length (filter (\<lambda>(a, b). a = b) (zip xs ys))
          = card {i. i < length (zip xs ys) \<and> (\<lambda>(a, b). a = b) (zip xs ys ! i)}"
    by (rule length_filter_conv_card)
  also have "{i. i < length (zip xs ys) \<and> (\<lambda>(a, b). a = b) (zip xs ys ! i)}
          = {i. i < length xs \<and> i < length ys \<and> xs ! i = ys ! i}"
    by auto
  finally show ?thesis by (simp add: matching_positions_def)
qed

lemma matching_positions_sym: "matching_positions xs ys = matching_positions ys xs"
  unfolding matching_positions_def by (rule arg_cong[where f = card]) auto

lemma is_similar_text_iff:
  "is_similar_text text1 text2 0.8 \<longleftrightarrow>
     text1 = text2
     \<or> (3 \<le> length text1 \<and> 3 \<le> length text2
        \<and> real (matching_positions text1 text2) / real (max (length text1) (length text2)) \<ge> 0.8)"
  unfolding is_similar_text_def Let_def count_zip_matches by auto

lemma is_similar_text_sym: "is_similar_text a b 0.8 = is_similar_text b a 0.8"
  unfolding is_similar_text_iff by (auto simp: matching_positions_sym max.commute)

lemma mergeable_sym: "mergeable a b = mergeable b a"
  unfolding mergeable_def using is_similar_text_sym by auto

subsection \<open>The grouping loops\<close>

lemma scan_group_inv:
  assumes "scan_group node1 rest P = (ms, P')"
  shows "P' = P \<union> node_id ` set ms
       \<and> set ms \<subseteq> set rest
       \<and> (\<forall>m\<in>set ms. node_id m \<notin> P \<and> mergeable node1 m)
       \<and> (\<forall>y\<in>set rest. node_id y \<notin> P' \<longrightarrow> \<not> mergeable node1 y)"
  using assms
proof (induction rest arbitrary: P ms P')
  case Nil
  then show ?case by simp
next
  case (Cons node2 rest)
  show ?case
  proof (cases "node_id node2 \<in> P")
    case True
    with Cons.prems have "scan_group node1 rest P = (ms, P')" by simp
    from Cons.IH[OF this] True show ?thesis by auto
  next
    case False
    show ?thesis
    proof (cases "mergeable node1 node2")
      case True
      obtain ms0 where s: "scan_group node1 rest (insert (node_id node2) P) = (ms0, P')"
        and ms: "ms = node2 # ms0"
        using Cons.prems False True
        by (auto simp: mergeable_def split: prod.splits)
      from Cons.IH[OF s] have ih:
        "P' = insert (node_id node2) P \<union> node_id ` set ms0"
        "set ms0 \<subseteq> set rest"
        "\<forall>m\<in>set ms0. node_id m \<notin> insert (node_id node2) P \<and> mergeable node1 m"
        "\<forall>y\<in>set rest. node_id y \<notin> P' \<longrightarrow> \<not> mergeable node1 y"
        by blast+
      show ?thesis
        unfolding ms using ih False True by auto
    next
      case nm: False
      with Cons.prems False have "scan_group node1 rest P = (ms, P')"
        by (auto simp: mergeable_def)
      from Cons.IH[OF this] nm show ?thesis by auto
    qed
  qed
qed

lemma scan_group_distinct:
  assumes "scan_group node1 rest P = (ms, P')" "distinct (map node_id rest)"
  shows "distinct (map node_id ms)"
  using assms
proof (induction rest arbitrary: P ms P')
  case Nil
  then show ?case by simp
next
  case (Cons node2 rest)
  show ?case
  proof (cases "node_id node2 \<notin> P \<and> mergeable node1 node2")
    case True
    obtain ms0 where s: "scan_group node1 rest (insert (node_id node2) P) = (ms0, P')"
      and ms: "ms = node2 # ms0"
      using Cons.prems(1) True
      by (auto simp: mergeable_def split: prod.splits)
    from scan_group_inv[OF s] have "set ms0 \<subseteq> set rest" by blast
    with Cons.IH[OF s] Cons.prems(2) show ?thesis
      unfolding ms by auto
  next
    case False
    with Cons.prems(1) have "scan_group node1 rest P = (ms, P')"
      by (auto simp: mergeable_def split: if_splits)
    from Cons.IH[OF this] Cons.prems(2) show ?thesis by simp
  qed
qed

lemma find_similar_groups_skip:
  "node_id node1 \<in> P \<Longrightarrow> find_similar_groups (node1 # rest) P = find_similar_groups rest P"
  by simp

lemma find_similar_groups_new:
  assumes "node_id node1 \<notin> P" "scan_group node1 rest P = (ms, P')"
  shows "find_similar_groups (node1 # rest) P =
           (if ms \<noteq> [] then [node1 # ms] else [])
           @ find_similar_groups rest (insert (node_id node1) P')"
  using assms by simp

lemma groups_shape:
  "g \<in> set (find_similar_groups ns P) \<Longrightarrow>
     \<exists>main others. g = main # others \<and> others \<noteq> [] \<and> (\<forall>other\<in>set others. mergeable main other)"
proof (induction ns arbitrary: P)
  case Nil
  then show ?case by simp
next
  case (Cons node1 rest)
  show ?case
  proof (cases "node_id node1 \<in> P")
    case True
    with Cons show ?thesis by simp
  next
    case False
    obtain ms P' where s: "scan_group node1 rest P = (ms, P')"
      by (cases "scan_group node1 rest P") blast
    from Cons.prems have "g \<in> set ((if ms \<noteq> [] then [node1 # ms] else [])
           @ find_similar_groups rest (insert (node_id node1) P'))"
      unfolding find_similar_groups_new[OF False s] .
    then consider "ms \<noteq> []" "g = node1 # ms"
      | "g \<in> set (find_similar_groups rest (insert (node_id node1) P'))"
      by (auto split: if_splits)
    then show ?thesis
    proof cases
      case 1
      with scan_group_inv[OF s] show ?thesis by blast
    next
      case 2
      with Cons.IH show ?thesis by blast
    qed
  qed
qed

lemma groups_members:
  "x \<in> set (concat (find_similar_groups ns P)) \<Longrightarrow> x \<in> set ns \<and> node_id x \<notin> P"
proof (induction ns arbitrary: P)
  case Nil
  then show ?case by simp
next
  case (Cons node1 rest)
  show ?case
  proof (cases "node_id node1 \<in> P")
    case True
    with Cons show ?thesis by simp
  next
    case False
    obtain ms P' where s: "scan_group node1 rest P = (ms, P')"
      by (cases "scan_group node1 rest P") blast
    note inv = scan_group_inv[OF s]
    from Cons.prems have "x \<in> set (concat ((if ms \<noteq> [] then [node1 # ms] else [])
           @ find_similar_groups rest (insert (node_id node1) P')))"
      unfolding find_similar_groups_new[OF False s] .
    then consider "x = node1" | "x \<in> set ms"
      | "x \<in> set (concat (find_similar_groups rest (insert (node_id node1) P')))"
      by (auto split: if_splits)
    then show ?thesis
    proof cases
      case 1
      with False show ?thesis by simp
    next
      case 2
      with inv show ?thesis by auto
    next
      case 3
      from Cons.IH[OF 3] inv show ?thesis by auto
    qed
  qed
qed

lemma groups_distinct_ids:
  "distinct (map node_id ns) \<Longrightarrow> distinct (map node_id (concat (find_similar_groups ns P)))"
proof (induction ns arbitrary: P)
  case Nil
  then show ?case by simp
next
  case (Cons node1 rest)
  from Cons.prems have dr: "distinct (map node_id rest)" and n1: "node_id node1 \<notin> node_id ` set rest"
    by auto
  show ?case
  proof (cases "node_id node1 \<in> P")
    case True
    with Cons.IH[OF dr] show ?thesis by simp
  next
    case False
    obtain ms P' where s: "scan_group node1 rest P = (ms, P')"
      by (cases "scan_group node1 rest P") blast
    note inv = scan_group_inv[OF s]
    let ?G = "find_similar_groups rest (insert (node_id node1) P')"
    have d1: "distinct (map node_id (node1 # ms))"
      using scan_group_distinct[OF s dr] inv n1 by auto
    have d2: "distinct (map node_id (concat ?G))"
      by (rule Cons.IH[OF dr])
    have disj: "node_id ` set (node1 # ms) \<inter> node_id ` set (concat ?G) = {}"
    proof (rule ccontr)
      assume "node_id ` set (node1 # ms) \<inter> node_id ` set (concat ?G) \<noteq> {}"
      then obtain x y where x: "x \<in> set (node1 # ms)" and y: "y \<in> set (concat ?G)"
        and eq: "node_id x = node_id y" by auto
      from groups_members[OF y] have "node_id y \<notin> insert (node_id node1) P'" by blast
      moreover from x inv have "node_id x \<in> insert (node_id node1) P'" by auto
      ultimately show False using eq by simp
    qed
    have all: "distinct (map node_id ((node1 # ms) @ concat ?G))"
      using d1 d2 disj by (simp only: map_append distinct_append set_map)
    show ?thesis
      unfolding find_similar_groups_new[OF False s]
      using all d2 by (cases "ms = []") simp_all
  qed
qed

lemma merged_away_Nil: "merged_away [] = {}"
  by (simp add: merged_away_def)

lemma merged_away_append: "merged_away (gs @ hs) = merged_away gs \<union> merged_away hs"
  by (simp add: merged_away_def)

lemma merged_away_single: "merged_away [main # others] = set others"
  by (simp add: merged_away_def)

lemma merged_away_subset: "merged_away gs \<subseteq> set (concat gs)"
proof
  fix x assume "x \<in> merged_away gs"
  then obtain g where g: "g \<in> set gs" "x \<in> set (tl g)"
    unfolding merged_away_def by auto
  have "x \<in> set g" using g(2) by (cases "g = []") (auto dest: list.set_sel(2))
  with g(1) show "x \<in> set (concat gs)" by auto
qed

lemma survivors_unmergeable:
  "distinct (map node_id ns) \<Longrightarrow>
     sorted_wrt (\<lambda>x y. \<not> mergeable x y)
       (filter (\<lambda>n. node_id n \<notin> P \<and> n \<notin> merged_away (find_similar_groups ns P)) ns)"
proof (induction ns arbitrary: P)
  case Nil
  then show ?case by simp
next
  case (Cons node1 rest)
  from Cons.prems have dr: "distinct (map node_id rest)" and n1: "node_id node1 \<notin> node_id ` set rest"
    by auto
  show ?case
  proof (cases "node_id node1 \<in> P")
    case True
    with Cons.IH[OF dr, of P] show ?thesis by simp
  next
    case False
    obtain ms P' where s: "scan_group node1 rest P = (ms, P')"
      by (cases "scan_group node1 rest P") blast
    note inv = scan_group_inv[OF s]
    let ?P'' = "insert (node_id node1) P'"
    let ?G = "find_similar_groups rest ?P''"
    have G_eq: "find_similar_groups (node1 # rest) P = (if ms \<noteq> [] then [node1 # ms] else []) @ ?G"
      by (rule find_similar_groups_new[OF False s])
    have away: "merged_away (find_similar_groups (node1 # rest) P) = set ms \<union> merged_away ?G"
      unfolding G_eq by (simp add: merged_away_append merged_away_single merged_away_Nil)
    have in_ms: "node_id n \<in> node_id ` set ms \<longleftrightarrow> n \<in> set ms" if "n \<in> set rest" for n
    proof
      assume "node_id n \<in> node_id ` set ms"
      then obtain m where m: "m \<in> set ms" "node_id m = node_id n" by auto
      with inv have "m \<in> set rest" by blast
      with dr that m(2) have "m = n" by (meson distinct_map inj_onD)
      with m(1) show "n \<in> set ms" by simp
    qed simp
    have keep: "(node_id n \<notin> P \<and> n \<notin> merged_away (find_similar_groups (node1 # rest) P))
                 = (node_id n \<notin> ?P'' \<and> n \<notin> merged_away ?G)" if "n \<in> set rest" for n
    proof -
      have "node_id n \<noteq> node_id node1"
      proof
        assume eq: "node_id n = node_id node1"
        from that have "node_id n \<in> node_id ` set rest" by (rule imageI)
        with eq n1 show False by simp
      qed
      with in_ms[OF that] inv show ?thesis unfolding away by auto
    qed
    have frest: "filter (\<lambda>n. node_id n \<notin> P \<and> n \<notin> merged_away (find_similar_groups (node1 # rest) P)) rest
               = filter (\<lambda>n. node_id n \<notin> ?P'' \<and> n \<notin> merged_away ?G) rest"
      by (rule filter_cong[OF refl]) (rule keep)
    have node1_away: "node1 \<notin> merged_away (find_similar_groups (node1 # rest) P)"
    proof
      assume "node1 \<in> merged_away (find_similar_groups (node1 # rest) P)"
      then consider "node1 \<in> set ms" | "node1 \<in> merged_away ?G" unfolding away by blast
      then show False
      proof cases
        case 1
        with inv n1 show False by auto
      next
        case 2
        with merged_away_subset have "node1 \<in> set (concat ?G)" by blast
        from groups_members[OF this] show False by simp
      qed
    qed
    have first: "\<not> mergeable node1 y"
      if "y \<in> set (filter (\<lambda>n. node_id n \<notin> ?P'' \<and> n \<notin> merged_away ?G) rest)" for y
    proof -
      from that have "y \<in> set rest" "node_id y \<notin> P'" by auto
      with inv show ?thesis by blast
    qed
    show ?thesis
      using False node1_away first Cons.IH[OF dr, of ?P'']
      by (simp add: frest del: find_similar_groups.simps)
  qed
qed

subsection \<open>The rewriting loop\<close>

lemma rewrite_edge_source:
  "edge_source (rewrite_edge m ids e) = (if edge_source e \<in> set ids then m else edge_source e)"
  by (simp add: rewrite_edge_def Let_def)

lemma rewrite_edge_target:
  "edge_target (rewrite_edge m ids e) = (if edge_target e \<in> set ids then m else edge_target e)"
  by (simp add: rewrite_edge_def Let_def)

lemma rewrite_edge_rest:
  "edge_id (rewrite_edge m ids e) = edge_id e"
  "edge_relation (rewrite_edge m ids e) = edge_relation e"
  "edge_confidence (rewrite_edge m ids e) = edge_confidence e"
  "edge_evidence (rewrite_edge m ids e) = edge_evidence e"
  by (simp_all add: rewrite_edge_def Let_def)

lemma rewrite_all_Nil: "rewrite_all [] e = e"
  by (simp add: rewrite_all_def)

lemma rewrite_all_Cons:
  "rewrite_all (g # gs) e = rewrite_all gs (rewrite_edge (node_id (hd g)) (map node_id (tl g)) e)"
  by (simp add: rewrite_all_def)

lemma rewrite_all_snoc:
  "rewrite_all (gs @ [g]) e = rewrite_edge (node_id (hd g)) (map node_id (tl g)) (rewrite_all gs e)"
  by (simp add: rewrite_all_def)

lemma merge_rounds:
  assumes "\<forall>g\<in>set gs. g \<noteq> []"
  shows "foldl (\<lambda>st group. merge_group group st) (ns, es) gs =
           (foldl (\<lambda>ns g. foldl (\<lambda>ns x. remove1 x ns) ns (tl g)) ns gs, map (rewrite_all gs) es)"
  using assms
proof (induction gs arbitrary: ns es)
  case Nil
  then show ?case by (simp add: rewrite_all_Nil)
next
  case (Cons g gs)
  then obtain main others where g: "g = main # others" by (cases g) auto
  from Cons.prems have "\<forall>g\<in>set gs. g \<noteq> []" by simp
  from Cons.IH[OF this] show ?case
    by (simp add: g rewrite_all_Cons comp_def)
qed

lemma remove_all_distinct:
  "distinct ns \<Longrightarrow> foldl (\<lambda>ns x. remove1 x ns) ns xs = filter (\<lambda>n. n \<notin> set xs) ns"
proof (induction xs arbitrary: ns)
  case Nil
  then show ?case by simp
next
  case (Cons x xs)
  have r: "remove1 x ns = filter (\<lambda>n. n \<noteq> x) ns"
    using Cons.prems by (simp add: distinct_remove1_removeAll removeAll_filter_not_eq) metis
  have "distinct (remove1 x ns)" using Cons.prems by simp
  from Cons.IH[OF this]
  have "foldl (\<lambda>ns x. remove1 x ns) (remove1 x ns) xs
          = filter (\<lambda>n. n \<notin> set xs) (filter (\<lambda>n. n \<noteq> x) ns)"
    unfolding r .
  then show ?case by (simp add: conj_commute)
qed

lemma remove_groups_distinct:
  "distinct ns \<Longrightarrow>
     foldl (\<lambda>ns g. foldl (\<lambda>ns x. remove1 x ns) ns (tl g)) ns gs = filter (\<lambda>n. n \<notin> merged_away gs) ns"
proof (induction gs arbitrary: ns)
  case Nil
  then show ?case by (simp add: merged_away_Nil)
next
  case (Cons g gs)
  have d: "distinct (filter (\<lambda>n. n \<notin> set (tl g)) ns)" using Cons.prems by simp
  have ma: "merged_away (g # gs) = set (tl g) \<union> merged_away gs"
    by (simp add: merged_away_def)
  show ?case
    using Cons.IH[OF d] by (simp add: remove_all_distinct[OF Cons.prems] ma conj_commute)
qed

lemma distinct_ids_distinct: "distinct (map node_id ns) \<Longrightarrow> distinct ns"
  by (simp add: distinct_map)

lemma merge_similar_entities_eq:
  assumes "distinct (map node_id ns)"
  shows "merge_similar_entities ns es =
           (filter (\<lambda>n. n \<notin> merged_away (find_similar_groups ns {})) ns,
            map (rewrite_all (find_similar_groups ns {})) es)"
proof -
  have ne: "\<forall>g\<in>set (find_similar_groups ns {}). g \<noteq> []"
    using groups_shape by blast
  show ?thesis
    unfolding merge_similar_entities_def merge_rounds[OF ne]
    by (simp add: remove_groups_distinct[OF distinct_ids_distinct[OF assms]])
qed

lemma concat_distinct_apart:
  assumes "distinct (map f (concat gs))" "g \<in> set gs" "g' \<in> set gs"
    "x \<in> set g" "y \<in> set g'" "f x = f y"
  shows "x = y \<and> g = g'"
  using assms
proof (induction gs)
  case Nil
  then show ?case by simp
next
  case (Cons a gs)
  from Cons.prems(1) have da: "distinct (map f a)" and dg: "distinct (map f (concat gs))"
    and disj: "f ` set a \<inter> f ` set (concat gs) = {}"
    by auto
  have in_concat: "z \<in> set (concat gs)" if "h \<in> set gs" "z \<in> set h" for h z
    using that by auto
  consider "g = a" "g' = a" | "g = a" "g' \<in> set gs" | "g \<in> set gs" "g' = a"
    | "g \<in> set gs" "g' \<in> set gs"
    using Cons.prems(2,3) by auto
  then show ?case
  proof cases
    case 1
    with da Cons.prems(4,5,6) have "x = y" by (meson distinct_map inj_onD)
    with 1 show ?thesis by simp
  next
    case 2
    with Cons.prems(4,5) in_concat have "f x \<in> f ` set a" "f y \<in> f ` set (concat gs)" by auto
    with disj Cons.prems(6) show ?thesis by auto
  next
    case 3
    with Cons.prems(4,5) in_concat have "f y \<in> f ` set a" "f x \<in> f ` set (concat gs)" by auto
    with disj Cons.prems(6) show ?thesis by auto
  next
    case 4
    from Cons.IH[OF dg 4 Cons.prems(4,5,6)] show ?thesis .
  qed
qed

lemma distinct_concat_part:
  "distinct (map f (concat gs)) \<Longrightarrow> g \<in> set gs \<Longrightarrow> distinct (map f g)"
  by (induction gs) auto

lemma main_not_merged_away:
  assumes d: "distinct (map node_id (concat gs))" and g: "g \<in> set gs" "g \<noteq> []"
  shows "node_id (hd g) \<notin> node_id ` merged_away gs"
proof
  assume "node_id (hd g) \<in> node_id ` merged_away gs"
  then obtain g' y where g': "g' \<in> set gs" and y: "y \<in> set (tl g')" and eq: "node_id (hd g) = node_id y"
    unfolding merged_away_def by auto
  obtain h t where gh: "g = h # t" using g(2) by (cases g) auto
  obtain h' t' where g'h: "g' = h' # t'" using y by (cases g') auto
  have hg: "hd g \<in> set g" using gh by simp
  have yg': "y \<in> set g'" using y g'h by simp
  from concat_distinct_apart[OF d g(1) g' hg yg' eq] have same: "hd g = y" "g = g'" by blast+
  with y gh have "h \<in> set t" by simp
  moreover from distinct_concat_part[OF d g(1)] have "node_id h \<notin> node_id ` set t"
    unfolding gh by simp
  ultimately show False by blast
qed

lemma merged_away_snoc: "merged_away (gs @ [g]) = merged_away gs \<union> set (tl g)"
  by (simp add: merged_away_def)

lemma rewrite_all_source:
  assumes "distinct (map node_id (concat gs))" "\<forall>g\<in>set gs. g \<noteq> []"
  shows "edge_source (rewrite_all gs e) \<notin> node_id ` merged_away gs
       \<and> (edge_source (rewrite_all gs e) = edge_source e
          \<or> (\<exists>g\<in>set gs. edge_source e \<in> node_id ` set (tl g)
                \<and> edge_source (rewrite_all gs e) = node_id (hd g)))"
  using assms
proof (induction gs rule: rev_induct)
  case Nil
  then show ?case by (simp add: rewrite_all_Nil merged_away_Nil)
next
  case (snoc g gs)
  from snoc.prems have d: "distinct (map node_id (concat gs))" and ne: "\<forall>g\<in>set gs. g \<noteq> []"
    by auto
  let ?s = "edge_source (rewrite_all gs e)"
  let ?s' = "edge_source (rewrite_all (gs @ [g]) e)"
  from snoc.IH[OF d ne] have ih1: "?s \<notin> node_id ` merged_away gs"
    and ih2: "?s = edge_source e
          \<or> (\<exists>g\<in>set gs. edge_source e \<in> node_id ` set (tl g) \<and> ?s = node_id (hd g))"
    by blast+
  have main: "node_id (hd h) \<notin> node_id ` merged_away (gs @ [g])" if "h \<in> set (gs @ [g])" for h
    using main_not_merged_away[OF snoc.prems(1) that] snoc.prems(2) that by blast
  have s': "?s' = (if ?s \<in> node_id ` set (tl g) then node_id (hd g) else ?s)"
    by (simp add: rewrite_all_snoc rewrite_edge_source)
  show ?case
  proof (cases "?s \<in> node_id ` set (tl g)")
    case True
    then have eq: "?s' = node_id (hd g)" using s' by simp
    have orig: "?s = edge_source e"
    proof (rule ccontr)
      assume "?s \<noteq> edge_source e"
      with ih2 obtain h where h: "h \<in> set gs" "?s = node_id (hd h)" by blast
      from main[of h] h(1) have "node_id (hd h) \<notin> node_id ` merged_away (gs @ [g])" by simp
      with True h(2) show False unfolding merged_away_snoc by auto
    qed
    have "?s' \<notin> node_id ` merged_away (gs @ [g])"
      unfolding eq using main[of g] by simp
    moreover have "\<exists>h\<in>set (gs @ [g]). edge_source e \<in> node_id ` set (tl h) \<and> ?s' = node_id (hd h)"
      using True orig eq by auto
    ultimately show ?thesis by blast
  next
    case False
    then have eq: "?s' = ?s" using s' by simp
    have "?s' \<notin> node_id ` merged_away (gs @ [g])"
      unfolding eq merged_away_snoc using ih1 False by auto
    moreover have "?s' = edge_source e
          \<or> (\<exists>h\<in>set (gs @ [g]). edge_source e \<in> node_id ` set (tl h) \<and> ?s' = node_id (hd h))"
      unfolding eq using ih2 by auto
    ultimately show ?thesis by blast
  qed
qed

lemma rewrite_all_target:
  assumes "distinct (map node_id (concat gs))" "\<forall>g\<in>set gs. g \<noteq> []"
  shows "edge_target (rewrite_all gs e) \<notin> node_id ` merged_away gs
       \<and> (edge_target (rewrite_all gs e) = edge_target e
          \<or> (\<exists>g\<in>set gs. edge_target e \<in> node_id ` set (tl g)
                \<and> edge_target (rewrite_all gs e) = node_id (hd g)))"
  using assms
proof (induction gs rule: rev_induct)
  case Nil
  then show ?case by (simp add: rewrite_all_Nil merged_away_Nil)
next
  case (snoc g gs)
  from snoc.prems have d: "distinct (map node_id (concat gs))" and ne: "\<forall>g\<in>set gs. g \<noteq> []"
    by auto
  let ?s = "edge_target (rewrite_all gs e)"
  let ?s' = "edge_target (rewrite_all (gs @ [g]) e)"
  from snoc.IH[OF d ne] have ih1: "?s \<notin> node_id ` merged_away gs"
    and ih2: "?s = edge_target e
          \<or> (\<exists>g\<in>set gs. edge_target e \<in> node_id ` set (tl g) \<and> ?s = node_id (hd g))"
    by blast+
  have main: "node_id (hd h) \<notin> node_id ` merged_away (gs @ [g])" if "h \<in> set (gs @ [g])" for h
    using main_not_merged_away[OF snoc.prems(1) that] snoc.prems(2) that by blast
  have s': "?s' = (if ?s \<in> node_id ` set (tl g) then node_id (hd g) else ?s)"
    by (simp add: rewrite_all_snoc rewrite_edge_target)
  show ?case
  proof (cases "?s \<in> node_id ` set (tl g)")
    case True
    then have eq: "?s' = node_id (hd g)" using s' by simp
    have orig: "?s = edge_target e"
    proof (rule ccontr)
      assume "?s \<noteq> edge_target e"
      with ih2 obtain h where h: "h \<in> set gs" "?s = node_id (hd h)" by blast
      from main[of h] h(1) have "node_id (hd h) \<notin> node_id ` merged_away (gs @ [g])" by simp
      with True h(2) show False unfolding merged_away_snoc by auto
    qed
    have "?s' \<notin> node_id ` merged_away (gs @ [g])"
      unfolding eq using main[of g] by simp
    moreover have "\<exists>h\<in>set (gs @ [g]). edge_target e \<in> node_id ` set (tl h) \<and> ?s' = node_id (hd h)"
      using True orig eq by auto
    ultimately show ?thesis by blast
  next
    case False
    then have eq: "?s' = ?s" using s' by simp
    have "?s' \<notin> node_id ` merged_away (gs @ [g])"
      unfolding eq merged_away_snoc using ih1 False by auto
    moreover have "?s' = edge_target e
          \<or> (\<exists>h\<in>set (gs @ [g]). edge_target e \<in> node_id ` set (tl h) \<and> ?s' = node_id (hd h))"
      unfolding eq using ih2 by auto
    ultimately show ?thesis by blast
  qed
qed

text \<open>What the groups of a node list with pairwise different ids look like.\<close>

lemma groups_facts:
  assumes "distinct (map node_id ns)" "g \<in> set (find_similar_groups ns {})"
  shows "g \<noteq> []" "hd g \<in> set ns" "hd g \<notin> merged_away (find_similar_groups ns {})"
    "\<forall>n\<in>set (tl g). mergeable (hd g) n" "set (tl g) \<subseteq> set ns"
proof -
  from groups_shape[OF assms(2)] obtain main others where g: "g = main # others"
    and m: "\<forall>other\<in>set others. mergeable main other" by blast
  show "g \<noteq> []" using g by simp
  have "x \<in> set (concat (find_similar_groups ns {}))" if "x \<in> set g" for x
    using that assms(2) by auto
  with groups_members have mem: "x \<in> set ns" if "x \<in> set g" for x using that by blast
  show "hd g \<in> set ns" using mem[of main] g by simp
  show "set (tl g) \<subseteq> set ns" using mem g by auto
  show "\<forall>n\<in>set (tl g). mergeable (hd g) n" using m g by simp
  from main_not_merged_away[OF groups_distinct_ids[OF assms(1)] assms(2) \<open>g \<noteq> []\<close>]
  show "hd g \<notin> merged_away (find_similar_groups ns {})" by blast
qed

lemma survivor_iff:
  assumes "distinct (map node_id ns)"
  shows "fst (merge_similar_entities ns es) = filter (\<lambda>n. n \<notin> merged_away (find_similar_groups ns {})) ns"
    and "snd (merge_similar_entities ns es) = map (rewrite_all (find_similar_groups ns {})) es"
  by (simp_all add: merge_similar_entities_eq[OF assms])

lemma sorted_wrt_sym_pairs:
  assumes "sorted_wrt R xs" "x \<in> set xs" "y \<in> set xs" "x \<noteq> y" "\<And>a b. R a b = R b a"
  shows "R x y"
  using assms(1-4)
proof (induction xs)
  case Nil
  then show ?case by simp
next
  case (Cons a xs)
  then show ?case using assms(5) by auto
qed

subsection \<open>The merge as a first-match-wins partition\<close>

lemma other_id:
  "node_id a \<notin> node_id ` set xs \<Longrightarrow> x \<in> set xs \<Longrightarrow> node_id x \<noteq> node_id a"
  by (metis imageI)

lemma scan_group_filter:
  assumes "distinct (map node_id rest)"
  shows "scan_group node1 rest P =
           (filter (\<lambda>y. node_id y \<notin> P \<and> mergeable node1 y) rest,
            P \<union> node_id ` set (filter (\<lambda>y. node_id y \<notin> P \<and> mergeable node1 y) rest))"
  using assms
proof (induction rest arbitrary: P)
  case Nil
  then show ?case by simp
next
  case (Cons node2 rest)
  from Cons.prems have dr: "distinct (map node_id rest)" and n2: "node_id node2 \<notin> node_id ` set rest"
    by auto
  show ?case
  proof (cases "node_id node2 \<in> P")
    case True
    then show ?thesis using Cons.IH[OF dr, of P] by simp
  next
    case False
    show ?thesis
    proof (cases "mergeable node1 node2")
      case True
      have same: "filter (\<lambda>y. node_id y \<notin> insert (node_id node2) P \<and> mergeable node1 y) rest
                = filter (\<lambda>y. node_id y \<notin> P \<and> mergeable node1 y) rest"
        by (rule filter_cong[OF refl]) (use other_id[OF n2] in auto)
      from True have t: "node_type node1 = node_type node2 \<and> is_similar_text (node_label node1) (node_label node2) 0.8"
        by (simp add: mergeable_def)
      show ?thesis
        using False True t Cons.IH[OF dr, of "insert (node_id node2) P"]
        by (simp add: same del: insert_iff)
    next
      case nm: False
      then have t: "\<not> (node_type node1 = node_type node2 \<and> is_similar_text (node_label node1) (node_label node2) 0.8)"
        by (simp add: mergeable_def)
      show ?thesis
        using False nm t Cons.IH[OF dr, of P] by auto
    qed
  qed
qed


lemma groups_of_Cons:
  "groups_of ((h, ms) # cl) = (if ms \<noteq> [] then [h # ms] else []) @ groups_of cl"
  by (simp add: groups_of_def)

lemma groups_of_Nil: "groups_of [] = []"
  by (simp add: groups_of_def)

lemma find_similar_groups_clusters:
  assumes "distinct (map node_id ns)"
  shows "find_similar_groups ns P = groups_of (clusters (filter (\<lambda>n. node_id n \<notin> P) ns))"
  using assms
proof (induction ns arbitrary: P)
  case Nil
  then show ?case by (simp add: groups_of_Nil)
next
  case (Cons node1 rest)
  from Cons.prems have dr: "distinct (map node_id rest)" and n1: "node_id node1 \<notin> node_id ` set rest"
    by auto
  show ?case
  proof (cases "node_id node1 \<in> P")
    case True
    then show ?thesis using Cons.IH[OF dr, of P] by simp
  next
    case False
    let ?F = "filter (\<lambda>n. node_id n \<notin> P) rest"
    let ?M = "filter (\<lambda>y. node_id y \<notin> P \<and> mergeable node1 y) rest"
    let ?P' = "P \<union> node_id ` set ?M"
    have s: "scan_group node1 rest P = (?M, ?P')"
      by (rule scan_group_filter[OF dr])
    have M: "?M = filter (mergeable node1) ?F"
      by (simp add: conj_commute)
    have in_M: "node_id y \<in> node_id ` set ?M \<longleftrightarrow> (node_id y \<notin> P \<and> mergeable node1 y)"
      if "y \<in> set rest" for y
    proof
      assume "node_id y \<in> node_id ` set ?M"
      then obtain m where m: "m \<in> set rest" "node_id m \<notin> P" "mergeable node1 m" "node_id m = node_id y"
        by auto
      from dr m(1,4) that have "m = y" by (meson distinct_map inj_onD)
      with m show "node_id y \<notin> P \<and> mergeable node1 y" by simp
    next
      assume "node_id y \<notin> P \<and> mergeable node1 y"
      with that show "node_id y \<in> node_id ` set ?M" by auto
    qed
    have R: "filter (\<lambda>n. node_id n \<notin> insert (node_id node1) ?P') rest
             = filter (\<lambda>y. \<not> mergeable node1 y) ?F"
    proof -
      have "(node_id y \<notin> insert (node_id node1) ?P') = (node_id y \<notin> P \<and> \<not> mergeable node1 y)"
        if "y \<in> set rest" for y
        using in_M[OF that] other_id[OF n1 that] by auto
      then have "filter (\<lambda>n. node_id n \<notin> insert (node_id node1) ?P') rest
             = filter (\<lambda>y. node_id y \<notin> P \<and> \<not> mergeable node1 y) rest"
        by (intro filter_cong[OF refl])
      then show ?thesis by (simp add: conj_commute)
    qed
    have "find_similar_groups (node1 # rest) P =
            (if ?M \<noteq> [] then [node1 # ?M] else [])
            @ find_similar_groups rest (insert (node_id node1) ?P')"
      by (rule find_similar_groups_new[OF False s])
    also have "find_similar_groups rest (insert (node_id node1) ?P')
                 = groups_of (clusters (filter (\<lambda>y. \<not> mergeable node1 y) ?F))"
      unfolding Cons.IH[OF dr] R ..
    also have "(if ?M \<noteq> [] then [node1 # ?M] else [])
            @ groups_of (clusters (filter (\<lambda>y. \<not> mergeable node1 y) ?F))
             = groups_of (clusters (node1 # ?F))"
      unfolding M by (simp add: groups_of_Cons)
    finally show ?thesis using False by simp
  qed
qed

lemma clusters_members:
  "(h, ms) \<in> set (clusters ns) \<Longrightarrow> h \<in> set ns \<and> set ms \<subseteq> set ns"
proof (induction ns arbitrary: h ms rule: clusters.induct)
  case 1
  then show ?case by simp
next
  case (2 n rest)
  from "2.prems" consider "h = n" "ms = filter (mergeable n) rest"
    | "(h, ms) \<in> set (clusters (filter (\<lambda>y. \<not> mergeable n y) rest))" by auto
  then show ?case
  proof cases
    case 1
    then show ?thesis by auto
  next
    case 2
    from "2.IH"[OF this] show ?thesis by auto
  qed
qed

lemma merged_away_groups_of:
  "merged_away (groups_of cl) = set (concat (map snd cl))"
  unfolding merged_away_def groups_of_def by (induction cl) auto

lemma clusters_survivors:
  assumes "distinct ns"
  shows "filter (\<lambda>n. n \<notin> set (concat (map snd (clusters ns)))) ns = map fst (clusters ns)"
  using assms
proof (induction ns rule: clusters.induct)
  case 1
  then show ?case by simp
next
  case (2 n rest)
  let ?M = "filter (mergeable n) rest"
  let ?R = "filter (\<lambda>y. \<not> mergeable n y) rest"
  let ?C = "set (concat (map snd (clusters ?R)))"
  from "2.prems" have n: "n \<notin> set rest" and dr: "distinct rest" by auto
  have dR: "distinct ?R" using dr by simp
  have C_sub: "?C \<subseteq> set ?R"
    using clusters_members by fastforce
  have n_out: "n \<notin> set ?M" "n \<notin> ?C" using n C_sub by auto
  have "filter (\<lambda>y. y \<notin> set ?M \<and> y \<notin> ?C) rest = filter (\<lambda>y. y \<notin> ?C) ?R"
  proof -
    have "filter (\<lambda>y. y \<notin> set ?M \<and> y \<notin> ?C) rest
            = filter (\<lambda>y. \<not> mergeable n y \<and> y \<notin> ?C) rest"
      by (rule filter_cong[OF refl]) auto
    then show ?thesis by (simp add: conj_commute)
  qed
  also have "\<dots> = map fst (clusters ?R)" by (rule "2.IH"[OF dR])
  finally show ?case using n_out by simp
qed

lemma rewrite_edge_record:
  "rewrite_edge m ids e =
     e\<lparr>edge_source := edge_source (rewrite_edge m ids e),
       edge_target := edge_target (rewrite_edge m ids e)\<rparr>"
  by (simp add: rewrite_edge_def Let_def)

lemma rewrite_all_record:
  "rewrite_all gs e =
     e\<lparr>edge_source := edge_source (rewrite_all gs e),
       edge_target := edge_target (rewrite_all gs e)\<rparr>"
proof (induction gs rule: rev_induct)
  case Nil
  then show ?case by (simp add: rewrite_all_Nil)
next
  case (snoc g gs)
  let ?e = "rewrite_all gs e"
  let ?r = "rewrite_edge (node_id (hd g)) (map node_id (tl g)) ?e"
  have "?r = ?e\<lparr>edge_source := edge_source ?r, edge_target := edge_target ?r\<rparr>"
    by (rule rewrite_edge_record)
  also have "\<dots> = e\<lparr>edge_source := edge_source ?r, edge_target := edge_target ?r\<rparr>"
    by (subst snoc.IH) simp
  finally show ?case by (simp add: rewrite_all_snoc)
qed

lemma in_groups_of:
  "g \<in> set (groups_of cl) \<longleftrightarrow> (\<exists>h ms. (h, ms) \<in> set cl \<and> ms \<noteq> [] \<and> g = h # ms)"
  unfolding groups_of_def by auto

lemma find_member:
  "find P xs = Some x \<Longrightarrow> P x \<and> x \<in> set xs"
  by (induction xs) (auto split: if_splits)

lemma representative_char:
  assumes d: "distinct (map node_id (concat (groups_of cl)))"
    and out: "s' \<notin> node_id ` merged_away (groups_of cl)"
    and how: "s' = i \<or> (\<exists>g\<in>set (groups_of cl). i \<in> node_id ` set (tl g) \<and> s' = node_id (hd g))"
  shows "s' = representative_id cl i"
proof (cases "find (\<lambda>(head, members). i \<in> set (map node_id members)) cl")
  case None
  then have none: "\<And>h ms. (h, ms) \<in> set cl \<Longrightarrow> i \<notin> node_id ` set ms"
    unfolding find_None_iff by auto
  have "\<not> (\<exists>g\<in>set (groups_of cl). i \<in> node_id ` set (tl g))"
  proof
    assume "\<exists>g\<in>set (groups_of cl). i \<in> node_id ` set (tl g)"
    then obtain g where g: "g \<in> set (groups_of cl)" "i \<in> node_id ` set (tl g)" by blast
    from g(1) obtain h ms where hm: "(h, ms) \<in> set cl" "g = h # ms"
      unfolding in_groups_of by blast
    with g(2) have "i \<in> node_id ` set ms" by simp
    with none[OF hm(1)] show False by blast
  qed
  with how have "s' = i" by blast
  with None show ?thesis by (simp add: representative_id_def)
next
  case (Some hm)
  obtain h ms where hm: "hm = (h, ms)" by (cases hm)
  from find_member[OF Some] have mem: "(h, ms) \<in> set cl" and i: "i \<in> node_id ` set ms"
    unfolding hm by auto
  from i have ne: "ms \<noteq> []" by auto
  with mem have g0: "h # ms \<in> set (groups_of cl)" unfolding in_groups_of by blast
  from i obtain y0 where y0: "y0 \<in> set ms" "node_id y0 = i" by auto
  have "y0 \<in> merged_away (groups_of cl)"
    using g0 y0(1) unfolding merged_away_def by force
  with y0(2) have "i \<in> node_id ` merged_away (groups_of cl)" by blast
  with out have "s' \<noteq> i" by blast
  with how obtain g where g: "g \<in> set (groups_of cl)" "i \<in> node_id ` set (tl g)" "s' = node_id (hd g)"
    by blast
  from g(2) obtain y where y: "y \<in> set (tl g)" "node_id y = i" by auto
  then have yg: "y \<in> set g" by (cases g) auto
  have y0g: "y0 \<in> set (h # ms)" using y0(1) by simp
  from concat_distinct_apart[OF d g(1) g0 yg y0g] y(2) y0(2) have "g = h # ms" by simp
  with g(3) have "s' = node_id h" by simp
  with Some hm show ?thesis by (simp add: representative_id_def)
qed

lemma rewrite_all_redirect:
  assumes d: "distinct (map node_id (concat (groups_of cl)))"
  shows "rewrite_all (groups_of cl) e = redirect cl e"
proof -
  have ne: "\<forall>g\<in>set (groups_of cl). g \<noteq> []"
  proof
    fix g assume "g \<in> set (groups_of cl)"
    then obtain h ms where "g = h # ms" unfolding in_groups_of by blast
    then show "g \<noteq> []" by simp
  qed
  from rewrite_all_source[OF d ne, of e]
  have s: "edge_source (rewrite_all (groups_of cl) e) = representative_id cl (edge_source e)"
    by (intro representative_char[OF d]) blast+
  from rewrite_all_target[OF d ne, of e]
  have t: "edge_target (rewrite_all (groups_of cl) e) = representative_id cl (edge_target e)"
    by (intro representative_char[OF d]) blast+
  show ?thesis
    by (subst rewrite_all_record) (simp add: s t redirect_def)
qed

lemma merge_is_first_match:
  assumes "distinct (map node_id nodes)"
  shows "merge_similar_entities nodes edges =
           (map fst (clusters nodes), map (redirect (clusters nodes)) edges)"
proof -
  have G: "find_similar_groups nodes {} = groups_of (clusters nodes)"
    using find_similar_groups_clusters[OF assms, of "{}"] by simp
  have d: "distinct (map node_id (concat (groups_of (clusters nodes))))"
    using groups_distinct_ids[OF assms, of "{}"] unfolding G .
  have "filter (\<lambda>n. n \<notin> merged_away (groups_of (clusters nodes))) nodes = map fst (clusters nodes)"
    unfolding merged_away_groups_of
    by (rule clusters_survivors[OF distinct_ids_distinct[OF assms]])
  moreover have "map (rewrite_all (groups_of (clusters nodes))) edges = map (redirect (clusters nodes)) edges"
    by (simp add: rewrite_all_redirect[OF d])
  ultimately show ?thesis
    unfolding merge_similar_entities_eq[OF assms] G by simp
qed

text \<open>
  C5. When the node ids are pairwise different (they are fresh \<open>uuid4\<close> values) and
  every edge starts and ends at the id of a node, as is the case for the collections
  that the build hands to the merge, then after the merge every edge still starts and
  ends at the id of a node that is left in the node list, and the merge returns exactly
  as many edges as it was given: edges are rewritten in place, never dropped or
  deduplicated.
\<close>

theorem merge_keeps_edges_resolved:
  assumes "distinct (map node_id nodes)"
    and "\<forall>e\<in>set edges. edge_source e \<in> node_id ` set nodes \<and> edge_target e \<in> node_id ` set nodes"
  shows "(\<forall>e\<in>set (snd (merge_similar_entities nodes edges)).
            edge_source e \<in> node_id ` set (fst (merge_similar_entities nodes edges))
          \<and> edge_target e \<in> node_id ` set (fst (merge_similar_entities nodes edges)))
       \<and> length (snd (merge_similar_entities nodes edges)) = length edges"
proof -
  let ?G = "find_similar_groups nodes {}"
  note d = groups_distinct_ids[OF assms(1), of "{}"]
  have ne: "\<forall>g\<in>set ?G. g \<noteq> []" using groups_facts(1)[OF assms(1)] by blast
  have alive: "i \<in> node_id ` set (fst (merge_similar_entities nodes edges))"
    if "i \<in> node_id ` set nodes" "i \<notin> node_id ` merged_away ?G" for i
    using that unfolding survivor_iff(1)[OF assms(1)] by auto
  have main_in: "node_id (hd g) \<in> node_id ` set nodes" if "g \<in> set ?G" for g
    using groups_facts(2)[OF assms(1) that] by simp
  have "edge_source e' \<in> node_id ` set (fst (merge_similar_entities nodes edges))
      \<and> edge_target e' \<in> node_id ` set (fst (merge_similar_entities nodes edges))"
    if "e' \<in> set (snd (merge_similar_entities nodes edges))" for e'
  proof -
    from that obtain e where e: "e \<in> set edges" and e': "e' = rewrite_all ?G e"
      unfolding survivor_iff(2)[OF assms(1)] by auto
    from assms(2) e have ends: "edge_source e \<in> node_id ` set nodes" "edge_target e \<in> node_id ` set nodes"
      by blast+
    from rewrite_all_source[OF d ne, of e] main_in ends(1)
    have "edge_source e' \<in> node_id ` set nodes" "edge_source e' \<notin> node_id ` merged_away ?G"
      unfolding e' by auto
    moreover from rewrite_all_target[OF d ne, of e] main_in ends(2)
    have "edge_target e' \<in> node_id ` set nodes" "edge_target e' \<notin> node_id ` merged_away ?G"
      unfolding e' by auto
    ultimately show ?thesis using alive by blast
  qed
  moreover have "length (snd (merge_similar_entities nodes edges)) = length edges"
    unfolding survivor_iff(2)[OF assms(1)] by simp
  ultimately show ?thesis by blast
qed

text \<open>
  C4, amended. Two labels are similar when they are equal, or when both have at least 3
  characters and the number of positions at which they agree, divided by the longer
  length, is at least 0.8. For nodes with pairwise different ids the merge is the
  first-match-wins partition: going through the nodes in order, a node not yet taken
  stays and takes with it every later node, not yet taken, of its type with a similar
  label; the taken nodes are removed and every edge end at a taken node is moved to the
  node that took it. So the merge only removes nodes; every node it removes has the type
  of, and a label similar to, the node that took it, which stays; and no two different
  nodes that stay have the same type and similar labels. Two similar nodes of one type
  need not end up merged with each other: see the counterexample.
\<close>

theorem merge_by_representative:
  assumes "distinct (map node_id nodes)"
  shows "(is_similar_text text1 text2 0.8 \<longleftrightarrow>
            text1 = text2
          \<or> (3 \<le> length text1 \<and> 3 \<le> length text2
             \<and> real (matching_positions text1 text2) / real (max (length text1) (length text2)) \<ge> 0.8))
       \<and> merge_similar_entities nodes edges =
            (map fst (clusters nodes), map (redirect (clusters nodes)) edges)
       \<and> set (fst (merge_similar_entities nodes edges)) \<subseteq> set nodes
       \<and> (\<forall>n\<in>set nodes. n \<notin> set (fst (merge_similar_entities nodes edges)) \<longrightarrow>
             (\<exists>m\<in>set (fst (merge_similar_entities nodes edges)).
                 node_type m = node_type n \<and> is_similar_text (node_label m) (node_label n) 0.8))
       \<and> (\<forall>m\<in>set (fst (merge_similar_entities nodes edges)).
           \<forall>n\<in>set (fst (merge_similar_entities nodes edges)).
             m \<noteq> n \<longrightarrow>
               \<not> (node_type m = node_type n \<and> is_similar_text (node_label m) (node_label n) 0.8))"
proof -
  let ?G = "find_similar_groups nodes {}"
  let ?nodes' = "fst (merge_similar_entities nodes edges)"
  have nodes': "?nodes' = filter (\<lambda>n. n \<notin> merged_away ?G) nodes"
    by (rule survivor_iff(1)[OF assms])
  have sub: "set ?nodes' \<subseteq> set nodes" unfolding nodes' by auto
  have removed: "\<exists>m\<in>set ?nodes'. node_type m = node_type n \<and> is_similar_text (node_label m) (node_label n) 0.8"
    if "n \<in> set nodes" "n \<notin> set ?nodes'" for n
  proof -
    from that have "n \<in> merged_away ?G" unfolding nodes' by simp
    then obtain g where g: "g \<in> set ?G" "n \<in> set (tl g)" unfolding merged_away_def by auto
    from groups_facts[OF assms g(1)] g(2)
    have "hd g \<in> set ?nodes'" "mergeable (hd g) n" unfolding nodes' by auto
    then show ?thesis unfolding mergeable_def by blast
  qed
  have sw: "sorted_wrt (\<lambda>x y. \<not> mergeable x y) ?nodes'"
    using survivors_unmergeable[OF assms, of "{}"] unfolding nodes' by simp
  have apart: "\<not> (node_type m = node_type n \<and> is_similar_text (node_label m) (node_label n) 0.8)"
    if "m \<in> set ?nodes'" "n \<in> set ?nodes'" "m \<noteq> n" for m n
    using sorted_wrt_sym_pairs[OF sw that, of ] mergeable_sym unfolding mergeable_def by blast
  show ?thesis
    using is_similar_text_iff[of text1 text2] merge_is_first_match[OF assms, of edges]
      sub removed apart by blast
qed

lemma example_similar_12: "is_similar_text ''price fixing'' ''Price Fixing'' 0.8"
  by (simp add: is_similar_text_def)

lemma example_similar_23: "is_similar_text ''Price Fixing'' ''PRIce Fixing'' 0.8"
  by (simp add: is_similar_text_def)

lemma example_similar_13: "\<not> is_similar_text ''price fixing'' ''PRIce Fixing'' 0.8"
  by (simp add: is_similar_text_def)

lemma example_groups:
  "find_similar_groups example_variant_nodes {} =
     [[example_node ''n1'' ''price fixing'' ''VIOLATION'',
       example_node ''n2'' ''Price Fixing'' ''VIOLATION'']]"
  by (simp add: example_variant_nodes_def example_node_def
        example_similar_12[simplified] example_similar_13[simplified])

lemma example_merge:
  "merge_similar_entities example_variant_nodes example_variant_edges =
     ([example_node ''n0'' ''Article 5'' ''LEGAL_ARTICLE'',
       example_node ''n1'' ''price fixing'' ''VIOLATION'',
       example_node ''n3'' ''PRIce Fixing'' ''VIOLATION''],
      [example_edge ''e1'' ''n0'' ''n1'' ''regulates'',
       example_edge ''e2'' ''n0'' ''n3'' ''regulates''])"
  unfolding merge_similar_entities_def example_groups
  by (simp add: example_variant_nodes_def example_variant_edges_def example_node_def
        example_edge_def rewrite_edge_def)

text \<open>
  C4 as stated: every pair of nodes of identical type whose labels are at or above the
  0.8 ratio is merged. The second and third spelling agree in 10 of 12 positions and
  have the same type, yet the second is merged into the first (the edge \<open>e1\<close> now
  ends at \<open>n1\<close>) while the third stays a node of its own (the edge \<open>e2\<close> still ends
  at \<open>n3\<close>): a node already taken by an earlier group is not compared again.
\<close>

theorem similar_pair_not_merged_counterexample:
  "node_type (example_node ''n2'' ''Price Fixing'' ''VIOLATION'')
     = node_type (example_node ''n3'' ''PRIce Fixing'' ''VIOLATION'')
   \<and> matching_positions ''Price Fixing'' ''PRIce Fixing'' = 10
   \<and> is_similar_text (node_label (example_node ''n2'' ''Price Fixing'' ''VIOLATION''))
        (node_label (example_node ''n3'' ''PRIce Fixing'' ''VIOLATION'')) 0.8
   \<and> merge_similar_entities example_variant_nodes example_variant_edges =
       ([example_node ''n0'' ''Article 5'' ''LEGAL_ARTICLE'',
         example_node ''n1'' ''price fixing'' ''VIOLATION'',
         example_node ''n3'' ''PRIce Fixing'' ''VIOLATION''],
        [example_edge ''e1'' ''n0'' ''n1'' ''regulates'',
         example_edge ''e2'' ''n0'' ''n3'' ''regulates''])"
proof -
  have "matching_positions ''Price Fixing'' ''PRIce Fixing'' = 10"
    unfolding count_zip_matches[symmetric] by simp
  then show ?thesis
    using example_merge example_similar_23 by (simp add: example_node_def)
qed

text \<open>
  On the example both hypotheses hold, and the two edges still end at nodes that are
  left.
\<close>

theorem merge_keeps_edges_resolved_witness:
  "distinct (map node_id example_variant_nodes)
   \<and> list_all (\<lambda>e. edge_source e \<in> node_id ` set example_variant_nodes
                   \<and> edge_target e \<in> node_id ` set example_variant_nodes)
        example_variant_edges
   \<and> list_all (\<lambda>e. edge_source e \<in> node_id ` set (fst (merge_similar_entities example_variant_nodes example_variant_edges))
                   \<and> edge_target e \<in> node_id ` set (fst (merge_similar_entities example_variant_nodes example_variant_edges)))
        (snd (merge_similar_entities example_variant_nodes example_variant_edges))
   \<and> length (snd (merge_similar_entities example_variant_nodes example_variant_edges)) = 2"
proof -
  have d: "distinct (map node_id example_variant_nodes)"
    by (simp add: example_variant_nodes_def example_node_def)
  have c: "\<forall>e\<in>set example_variant_edges.
             edge_source e \<in> node_id ` set example_variant_nodes
           \<and> edge_target e \<in> node_id ` set example_variant_nodes"
    by (simp add: example_variant_nodes_def example_variant_edges_def example_node_def example_edge_def)
  have l: "length example_variant_edges = 2"
    by (simp add: example_variant_edges_def)
  from merge_keeps_edges_resolved [OF d c] d c l
  show ?thesis
    unfolding list_all_iff by simp
qed

text \<open>
  On the example the second spelling is taken by the first, so the edge that ended at
  it now ends at the first spelling; the third spelling is not taken by the first and
  stays, with its edge; the nodes that stay are pairwise not mergeable.
\<close>

theorem merge_by_representative_witness:
  "distinct (map node_id example_variant_nodes)
   \<and> example_node ''n2'' ''Price Fixing'' ''VIOLATION''
        \<notin> set (fst (merge_similar_entities example_variant_nodes example_variant_edges))
   \<and> map fst (clusters example_variant_nodes) =
        [example_node ''n0'' ''Article 5'' ''LEGAL_ARTICLE'',
         example_node ''n1'' ''price fixing'' ''VIOLATION'',
         example_node ''n3'' ''PRIce Fixing'' ''VIOLATION'']
   \<and> map (redirect (clusters example_variant_nodes)) example_variant_edges =
        [example_edge ''e1'' ''n0'' ''n1'' ''regulates'',
         example_edge ''e2'' ''n0'' ''n3'' ''regulates'']
   \<and> list_all (\<lambda>n. n \<in> set (fst (merge_similar_entities example_variant_nodes example_variant_edges))
                 \<or> list_ex (\<lambda>m. node_type m = node_type n
                                \<and> is_similar_text (node_label m) (node_label n) 0.8)
                      (fst (merge_similar_entities example_variant_nodes example_variant_edges)))
        example_variant_nodes
   \<and> list_all (\<lambda>m. list_all (\<lambda>n. m = n
                     \<or> \<not> (node_type m = node_type n
                           \<and> is_similar_text (node_label m) (node_label n) 0.8))
                   (fst (merge_similar_entities example_variant_nodes example_variant_edges)))
        (fst (merge_similar_entities example_variant_nodes example_variant_edges))"
proof -
  have d: "distinct (map node_id example_variant_nodes)"
    by (simp add: example_variant_nodes_def example_node_def)
  have gone: "example_node ''n2'' ''Price Fixing'' ''VIOLATION''
        \<notin> set (fst (merge_similar_entities example_variant_nodes example_variant_edges))"
    by (simp add: example_merge example_node_def)
  note main = merge_by_representative [OF d, of "''a''" "''b''" example_variant_edges]
  from main have eq: "merge_similar_entities example_variant_nodes example_variant_edges =
      (map fst (clusters example_variant_nodes),
       map (redirect (clusters example_variant_nodes)) example_variant_edges)"
    by blast
  from eq have cl: "map fst (clusters example_variant_nodes) =
        [example_node ''n0'' ''Article 5'' ''LEGAL_ARTICLE'',
         example_node ''n1'' ''price fixing'' ''VIOLATION'',
         example_node ''n3'' ''PRIce Fixing'' ''VIOLATION'']"
    and re: "map (redirect (clusters example_variant_nodes)) example_variant_edges =
        [example_edge ''e1'' ''n0'' ''n1'' ''regulates'',
         example_edge ''e2'' ''n0'' ''n3'' ''regulates'']"
    unfolding example_merge by simp_all
  from main d gone cl re show ?thesis
    unfolding list_all_iff list_ex_iff by blast
qed

section \<open>Search\<close>

lemma calculate_similarity_same_dim:
  "length v1 = length v2 \<Longrightarrow> calculate_similarity v1 v2 = Inr (similarity_value v1 v2)"
  by (auto simp: calculate_similarity_def cosine_similarity_def similarity_value_def)

lemma collect_similarities_same_dim:
  assumes "\<forall>segment\<in>set segments. \<forall>v. seg_vector segment = Some v \<longrightarrow> length v = length q"
  shows "collect_similarities q segments =
           Inr (concat (map (\<lambda>segment. case seg_vector segment of
                                None \<Rightarrow> []
                              | Some v \<Rightarrow> [(similarity_value q v, segment)]) segments))"
  using assms
proof (induction segments)
  case Nil
  then show ?case by simp
next
  case (Cons segment rest)
  then have ih: "collect_similarities q rest =
           Inr (concat (map (\<lambda>segment. case seg_vector segment of
                                None \<Rightarrow> []
                              | Some v \<Rightarrow> [(similarity_value q v, segment)]) rest))"
    by simp
  show ?case
  proof (cases "seg_vector segment")
    case None
    then show ?thesis using ih by simp
  next
    case (Some v)
    with Cons.prems have "length q = length v" by simp
    then show ?thesis using ih Some by (simp add: calculate_similarity_same_dim)
  qed
qed

lemma slice_to_nonneg: "0 \<le> k \<Longrightarrow> slice_to k xs = take (nat k) xs"
  by (simp add: slice_to_def)

lemma find_similar_segments_eq:
  assumes "\<forall>segment\<in>set (all_stored_segments data). \<forall>v. seg_vector segment = Some v \<longrightarrow> length v = length q"
    and "0 \<le> top_k"
  shows "find_similar_segments q data top_k =
           Inr (map search_result (take (nat top_k) (sort_by_similarity (stored_similarities q data))))"
proof (cases "all_stored_segments data = []")
  case True
  then show ?thesis
    by (simp add: find_similar_segments_def stored_similarities_def sort_by_similarity_def)
next
  case False
  have sr: "(\<lambda>(similarity, segment). \<lparr>ss_segment = segment, similarity_score = similarity\<rparr>) = search_result"
    by (auto simp: search_result_def fun_eq_iff)
  show ?thesis
    using False
    by (simp add: find_similar_segments_def Let_def collect_similarities_same_dim[OF assms(1)]
          slice_to_nonneg[OF assms(2)] stored_similarities_def sr)
qed

text \<open>In a list sorted downwards, the entries at or above a bound form a prefix.\<close>

lemma filter_bound_takeWhile:
  "sorted_wrt (\<lambda>a b. f a \<ge> (f b :: real)) xs \<Longrightarrow> filter (\<lambda>x. m \<le> f x) xs = takeWhile (\<lambda>x. m \<le> f x) xs"
proof (induction xs)
  case Nil
  then show ?case by simp
next
  case (Cons x xs)
  show ?case
  proof (cases "m \<le> f x")
    case True
    with Cons show ?thesis by simp
  next
    case False
    with Cons.prems have "\<forall>y\<in>set xs. \<not> m \<le> f y" by auto
    then have "filter (\<lambda>x. m \<le> f x) xs = []" by (simp add: filter_empty_conv)
    with False show ?thesis by simp
  qed
qed

lemma takeWhile_take_commute: "takeWhile P (take n xs) = take n (takeWhile P xs)"
proof (induction xs arbitrary: n)
  case Nil
  then show ?case by simp
next
  case (Cons x xs)
  then show ?case by (cases n) simp_all
qed

lemma sorted_wrt_take_desc:
  "sorted_wrt R xs \<Longrightarrow> sorted_wrt R (take n xs)"
  by (metis append_take_drop_id sorted_wrt_append)

lemma overfetch_filter:
  assumes "sorted_wrt (\<lambda>a b. f a \<ge> (f b :: real)) xs"
  shows "take k (filter (\<lambda>x. m \<le> f x) (take (2 * k) xs)) = take k (filter (\<lambda>x. m \<le> f x) xs)"
proof -
  have "filter (\<lambda>x. m \<le> f x) (take (2 * k) xs) = take (2 * k) (takeWhile (\<lambda>x. m \<le> f x) xs)"
    using filter_bound_takeWhile[OF sorted_wrt_take_desc[OF assms]] takeWhile_take_commute by metis
  then show ?thesis
    by (simp add: filter_bound_takeWhile[OF assms] min_def)
qed

lemma sort_by_similarity_sorted:
  "sorted_wrt (\<lambda>a b. fst a \<ge> fst b) (sort_by_similarity xs)"
proof -
  have "sorted (map (\<lambda>x. - fst x) (sort_by_similarity xs))"
    unfolding sort_by_similarity_def by (rule sorted_sort_key)
  then show ?thesis
    by (simp add: sorted_map)
qed

lemma sort_by_similarity_stable:
  "filter (\<lambda>x. fst x = s) (sort_by_similarity xs) = filter (\<lambda>x. fst x = s) xs"
proof -
  have "filter (\<lambda>x. - fst x = - s) (sort_key (\<lambda>x. - fst x) xs) = filter (\<lambda>x. - fst x = - s) xs"
    by (rule sort_key_stable)
  then show ?thesis by (simp add: sort_by_similarity_def)
qed

lemma sort_by_similarity_mset: "mset (sort_by_similarity xs) = mset xs"
  by (simp add: sort_by_similarity_def)

text \<open>
  C7. Let every stored vector have the dimension of the query embedding (so that no
  similarity raises) and let \<open>top_k\<close> be non-negative. Then there is a ranking of the
  similarities of all stored vectors of all documents (a permutation of them) that is
  sorted non-increasing and in which entries of equal similarity keep their insertion
  order, such that: \<open>find_similar_segments\<close> and \<open>search_regulations\<close> without filters
  return its first \<open>top_k\<close> entries; \<open>search_regulations\<close> with a minimum similarity
  returns the first \<open>top_k\<close> of its entries whose similarity is at least the minimum;
  and with \<open>top_k\<close> at least the number of stored segments all of them (all that reach
  the minimum) are returned.
\<close>

theorem search_ranked:
  assumes "\<forall>segment\<in>set (all_stored_segments vectors_data).
             \<forall>v. seg_vector segment = Some v \<longrightarrow> length v = length query_embedding"
    and "0 \<le> top_k"
  shows "\<exists>ranked.
           mset ranked = mset (stored_similarities query_embedding vectors_data)
         \<and> sorted_wrt (\<lambda>a b. fst a \<ge> fst b) ranked
         \<and> (\<forall>s. filter (\<lambda>x. fst x = s) ranked
                  = filter (\<lambda>x. fst x = s) (stored_similarities query_embedding vectors_data))
         \<and> find_similar_segments query_embedding vectors_data top_k
             = Inr (map search_result (take (nat top_k) ranked))
         \<and> search_regulations query_embedding vectors_data None top_k
             = Inr (map search_result (take (nat top_k) ranked))
         \<and> search_regulations query_embedding vectors_data
               (Some \<lparr>flt_min_similarity = Some m, flt_keywords = None\<rparr>) top_k
             = Inr (map search_result (take (nat top_k) (filter (\<lambda>x. m \<le> fst x) ranked)))
         \<and> (int (length (all_stored_segments vectors_data)) \<le> top_k \<longrightarrow>
               find_similar_segments query_embedding vectors_data top_k = Inr (map search_result ranked)
             \<and> search_regulations query_embedding vectors_data None top_k = Inr (map search_result ranked)
             \<and> search_regulations query_embedding vectors_data
                   (Some \<lparr>flt_min_similarity = Some m, flt_keywords = None\<rparr>) top_k
                 = Inr (map search_result (filter (\<lambda>x. m \<le> fst x) ranked)))"
proof -
  let ?stored = "stored_similarities query_embedding vectors_data"
  let ?ranked = "sort_by_similarity ?stored"
  let ?k = "nat top_k"
  have k2: "0 \<le> top_k * 2" "nat (top_k * 2) = 2 * ?k" using assms(2) by auto
  have find: "find_similar_segments query_embedding vectors_data top_k
                = Inr (map search_result (take ?k ?ranked))"
    by (rule find_similar_segments_eq[OF assms])
  have find2: "find_similar_segments query_embedding vectors_data (top_k * 2)
                = Inr (map search_result (take (2 * ?k) ?ranked))"
    using find_similar_segments_eq[OF assms(1) k2(1)] k2(2) by simp
  have none: "search_regulations query_embedding vectors_data None top_k
                = Inr (map search_result (take ?k ?ranked))"
    by (simp add: search_regulations_def find2 slice_to_nonneg[OF assms(2)] take_map min_def)
  have incl: "include_segment \<lparr>flt_min_similarity = Some m, flt_keywords = None\<rparr> (search_result x)
                = (m \<le> fst x)" for x
    by (auto simp: include_segment_def search_result_def)
  have "filter (include_segment \<lparr>flt_min_similarity = Some m, flt_keywords = None\<rparr>)
          (map search_result (take (2 * ?k) ?ranked))
        = map search_result (filter (\<lambda>x. m \<le> fst x) (take (2 * ?k) ?ranked))"
    by (simp add: filter_map comp_def incl)
  then have some: "search_regulations query_embedding vectors_data
               (Some \<lparr>flt_min_similarity = Some m, flt_keywords = None\<rparr>) top_k
             = Inr (map search_result (take ?k (filter (\<lambda>x. m \<le> fst x) ?ranked)))"
    by (simp add: search_regulations_def find2 slice_to_nonneg[OF assms(2)] take_map
          overfetch_filter[OF sort_by_similarity_sorted])
  have len: "length ?ranked \<le> length (all_stored_segments vectors_data)"
  proof -
    have "length (concat (map (\<lambda>segment. case seg_vector segment of
                                None \<Rightarrow> []
                              | Some v \<Rightarrow> [(similarity_value query_embedding v, segment)]) xs))
            \<le> length xs" for xs
      by (induction xs) (auto split: option.splits)
    then have "length ?stored \<le> length (all_stored_segments vectors_data)"
      unfolding stored_similarities_def .
    moreover have "length ?ranked = length ?stored"
      by (metis sort_by_similarity_mset size_mset)
    ultimately show ?thesis by simp
  qed
  have all: "take ?k ?ranked = ?ranked" "take ?k (filter (\<lambda>x. m \<le> fst x) ?ranked) = filter (\<lambda>x. m \<le> fst x) ?ranked"
    if "int (length (all_stored_segments vectors_data)) \<le> top_k"
  proof -
    from that len have l: "length ?ranked \<le> ?k" by linarith
    then show "take ?k ?ranked = ?ranked" by simp
    have "length (filter (\<lambda>x. m \<le> fst x) ?ranked) \<le> length ?ranked" by (rule length_filter_le)
    from this l have "length (filter (\<lambda>x. m \<le> fst x) ?ranked) \<le> ?k" by (rule order_trans)
    then show "take ?k (filter (\<lambda>x. m \<le> fst x) ?ranked) = filter (\<lambda>x. m \<le> fst x) ?ranked"
      by (rule take_all)
  qed
  show ?thesis
  proof (intro exI[of _ ?ranked] conjI allI impI)
    show "mset ?ranked = mset ?stored" by (rule sort_by_similarity_mset)
    show "sorted_wrt (\<lambda>a b. fst a \<ge> fst b) ?ranked" by (rule sort_by_similarity_sorted)
    show "filter (\<lambda>x. fst x = s) ?ranked = filter (\<lambda>x. fst x = s) ?stored" for s
      by (rule sort_by_similarity_stable)
  qed (use find none some all in simp_all)
qed

lemma unit_norms: "l2_norm [1, 0] = 1" "l2_norm [0, 1] = 1"
  by (simp_all add: l2_norm_def)

lemma example_search:
  "find_similar_segments [1, 0] example_vectors 2 =
     Inr [\<lparr>ss_segment = example_segment ''s1'' ''A violates Article 5'' 0 [1, 0], similarity_score = 1\<rparr>,
          \<lparr>ss_segment = example_segment ''s3'' ''Article 5 applies to suppliers'' 0 [1, 0], similarity_score = 1\<rparr>]"
  by (simp add: find_similar_segments_def all_stored_segments_def example_vectors_def
        example_segment_def calculate_similarity_def cosine_similarity_def normalize_row_def
        norm_divisor_def unit_norms dot_def sort_by_similarity_def slice_to_def)

text \<open>
  The query vector \<open>[1, 0]\<close> on the example index: the two segments of similarity 1
  come first, in insertion order; asking for three results returns all three segments.
\<close>

theorem search_ranked_witness:
  "list_all (\<lambda>segment. \<exists>v. seg_vector segment = Some v \<and> length v = length [1, 0 :: real])
      (all_stored_segments example_vectors)
   \<and> (0 :: int) \<le> 3
   \<and> find_similar_segments [1, 0] example_vectors 2 =
       Inr [\<lparr>ss_segment = example_segment ''s1'' ''A violates Article 5'' 0 [1, 0], similarity_score = 1\<rparr>,
            \<lparr>ss_segment = example_segment ''s3'' ''Article 5 applies to suppliers'' 0 [1, 0], similarity_score = 1\<rparr>]
   \<and> (\<exists>ranked. length ranked = 3
         \<and> sorted_wrt (\<lambda>a b. fst a \<ge> fst b) ranked
         \<and> find_similar_segments [1, 0] example_vectors 3 = Inr (map search_result ranked)
         \<and> search_regulations [1, 0] example_vectors None 3 = Inr (map search_result ranked))"
proof -
  have segs: "all_stored_segments example_vectors =
     [example_segment ''s1'' ''A violates Article 5'' 0 [1, 0],
      example_segment ''s2'' ''Penalty is $1000 fine'' 1 [0, 1],
      example_segment ''s3'' ''Article 5 applies to suppliers'' 0 [1, 0]]"
    by (simp add: all_stored_segments_def example_vectors_def)
  have dims: "\<forall>segment\<in>set (all_stored_segments example_vectors).
             \<forall>v. seg_vector segment = Some v \<longrightarrow> length v = length [1, 0 :: real]"
    unfolding segs by (simp add: example_segment_def)
  have dims': "list_all (\<lambda>segment. \<exists>v. seg_vector segment = Some v \<and> length v = length [1, 0 :: real])
      (all_stored_segments example_vectors)"
    unfolding segs by (simp add: example_segment_def)
  have n: "length (stored_similarities [1, 0] example_vectors) = 3"
    unfolding stored_similarities_def segs by (simp add: example_segment_def)
  have le: "int (length (all_stored_segments example_vectors)) \<le> 3"
    unfolding segs by simp
  from search_ranked [OF dims, of 3 0] le
  obtain r3 where r3: "mset r3 = mset (stored_similarities [1, 0] example_vectors)"
      "sorted_wrt (\<lambda>a b. fst a \<ge> fst b) r3"
      "find_similar_segments [1, 0] example_vectors 3 = Inr (map search_result r3)"
      "search_regulations [1, 0] example_vectors None 3 = Inr (map search_result r3)"
    by auto
  from r3(1) n have "length r3 = 3" by (metis size_mset)
  with r3 have "\<exists>ranked. length ranked = 3
         \<and> sorted_wrt (\<lambda>a b. fst a \<ge> fst b) ranked
         \<and> find_similar_segments [1, 0] example_vectors 3 = Inr (map search_result ranked)
         \<and> search_regulations [1, 0] example_vectors None 3 = Inr (map search_result ranked)"
    by blast
  with dims' example_search show ?thesis by simp
qed

section \<open>Confidence of extracted entities\<close>

text \<open>
  An entity is created only while \<open>entities\<close>, the mapping being iterated, has a
  non-empty list; so \<open>any(entities.values())\<close> holds at every point where the
  confidence is chosen, whichever strategy filled \<open>entities\<close>.
\<close>

lemma in_dict_append:
  "(k', l') \<in> set (dict_append d k x) \<Longrightarrow> \<exists>l. (k', l) \<in> set d \<and> (l' = l \<or> l' = l @ [x])"
  by (auto simp: dict_append_def split: if_splits)

lemma dict_append_confident:
  assumes "all_confident d" "ent_confidence x = 0.8"
  shows "all_confident (dict_append d k x)"
  unfolding all_confident_def
proof (intro ballI, clarify)
  fix k' l' e assume m: "(k', l') \<in> set (dict_append d k x)" and e: "e \<in> set l'"
  from in_dict_append[OF m] obtain l where l: "(k', l) \<in> set d" "l' = l \<or> l' = l @ [x]" by blast
  from l(2) e have "e \<in> set l \<or> e = x" by auto
  then show "ent_confidence e = 0.8"
  proof
    assume "e \<in> set l"
    with assms(1) l(1) show ?thesis unfolding all_confident_def by blast
  next
    assume "e = x"
    with assms(2) show ?thesis by (simp only:)
  qed
qed

lemma add_entities_confident:
  assumes "all_confident (fst st)" "texts \<noteq> [] \<longrightarrow> any_values entities"
  shows "all_confident (fst (add_entities sv doc_id segment entities entity_type texts st))"
  using assms
proof (induction texts arbitrary: st)
  case Nil
  then show ?case by simp
next
  case (Cons entity_text rest)
  obtain all_entities n where st: "st = (all_entities, n)" by (cases st)
  from Cons.prems(2) have av: "any_values entities" by simp
  show ?case
    unfolding st add_entities.simps
    by (rule Cons.IH) (use Cons.prems(1) av in \<open>simp_all add: st dict_append_confident\<close>)
qed

lemma any_values_member:
  "(entity_type, entity_list) \<in> set entities \<Longrightarrow> entity_list \<noteq> [] \<Longrightarrow> any_values entities"
  unfolding any_values_def list_ex_iff by auto

lemma add_extraction_confident:
  assumes "all_confident (fst st)" "set items \<subseteq> set entities"
  shows "all_confident (fst (add_extraction sv doc_id segment entities items st))"
  using assms
proof (induction items arbitrary: st)
  case Nil
  then show ?case by simp
next
  case (Cons item items)
  obtain entity_type entity_list where item: "item = (entity_type, entity_list)" by (cases item)
  from Cons.prems(2) item have mem: "(entity_type, entity_list) \<in> set entities"
    and sub: "set items \<subseteq> set entities" by auto
  have "all_confident (fst (if entity_type \<in> set (map fst (fst st))
        then add_entities sv doc_id segment entities entity_type entity_list st
        else st))"
    using add_entities_confident[OF Cons.prems(1), of entity_list entities] any_values_member[OF mem]
      Cons.prems(1)
    by auto
  from Cons.IH[OF this sub] show ?case
    unfolding item by simp
qed

lemma extract_segments_confident:
  "all_confident (fst st) \<Longrightarrow> all_confident (fst (extract_segments sv doc_id segments st))"
proof (induction segments arbitrary: st)
  case Nil
  then show ?case by simp
next
  case (Cons segment segments)
  show ?case
    unfolding extract_segments.simps Let_def
    by (rule Cons.IH) (rule add_extraction_confident[OF Cons.prems subset_refl])
qed

lemma extraction_confidence_always_08:
  "all_confident (fst (extract_entities_from_document sv doc_id n))"
proof (cases "sv_load_segments sv doc_id = []")
  case True
  then show ?thesis
    by (simp add: extract_entities_from_document_def all_confident_def)
next
  case False
  have "all_confident (fst (map (\<lambda>(entity_type, name). (entity_type, [])) entity_types, n))"
    by (simp add: all_confident_def entity_types_def)
  from extract_segments_confident[OF this] False show ?thesis
    by (simp only: extract_entities_from_document_def Let_def if_False)
qed

lemma offline_local:
  "local_entity_extraction (sv_findall offline_services) ''Compliance and pricing'' =
     [(''legal_articles'', []), (''violations'', []), (''penalties'', []),
      (''responsible_parties'', []), (''related_concepts'', [''compliance'', ''pricing''])]"
  by code_simp

text \<open>
  C3 on the code. The generation service extracts nothing from the segment, the
  rule-based strategy finds two concepts, and both entities get confidence 0.8 where the
  claim, and the comment in the code, say 0.6: the test \<open>any(entities.values())\<close> is
  made on the variable that by then holds the rule-based result.
\<close>

theorem fallback_confidence_evaluation:
  "\<not> any_values (sv_extract_legal_entities offline_services ''Compliance and pricing'')
   \<and> local_entity_extraction (sv_findall offline_services) ''Compliance and pricing'' =
       [(''legal_articles'', []), (''violations'', []), (''penalties'', []),
        (''responsible_parties'', []), (''related_concepts'', [''compliance'', ''pricing''])]
   \<and> map (\<lambda>(entity_type, entity_list).
             (entity_type, map (\<lambda>e. (ent_text e, ent_confidence e)) entity_list))
         (fst (extract_entities_from_document offline_services ''doc1'' 0)) =
       [(''legal_articles'', []), (''violations'', []), (''penalties'', []),
        (''responsible_parties'', []),
        (''related_concepts'', [(''compliance'', 0.8), (''pricing'', 0.8)])]"
proof -
  have ai: "\<not> any_values (sv_extract_legal_entities offline_services ''Compliance and pricing'')"
    by (simp add: any_values_def offline_services_def)
  have segs: "sv_load_segments offline_services ''doc1'' =
                [\<lparr>seg_id = ''s1'', seg_content = ''Compliance and pricing'',
                  seg_index = 0, seg_vector = None\<rparr>]"
    by (simp add: offline_services_def)
  have av: "any_values [(''legal_articles'', []), (''violations'', []), (''penalties'', []),
      (''responsible_parties'', []), (''related_concepts'', [''compliance'', ''pricing''])]"
    by (simp add: any_values_def)
  have "map (\<lambda>(entity_type, entity_list).
             (entity_type, map (\<lambda>e. (ent_text e, ent_confidence e)) entity_list))
         (fst (extract_entities_from_document offline_services ''doc1'' 0)) =
       [(''legal_articles'', []), (''violations'', []), (''penalties'', []),
        (''responsible_parties'', []),
        (''related_concepts'', [(''compliance'', 0.8), (''pricing'', 0.8)])]"
    unfolding extract_entities_from_document_def segs
    by (simp add: Let_def ai offline_local av entity_types_def dict_append_def)
  with ai offline_local show ?thesis by blast
qed

end
